theory Spec2Isabelle
  imports Main "HOL-Library.AList" "HOL-Library.Sublist"
begin

section \<open>Values, configurations and errors\<close>

text \<open>
  A configuration is a Python dict with string keys whose values are arbitrary parsed
  YAML data. The engine never looks inside an atom; it distinguishes mappings, lists,
  strings and integers only. A dict keeps its insertion order, which the flattener
  consumes, so a dict is an association list: \<open>d[k] = v\<close> replaces the value in place
  or appends a new entry (\<open>AList.update\<close>), \<open>del d[k]\<close> removes the entry.
\<close>

datatype pyval =
    VNone
  | VInt int
  | VStr string
  | VList "pyval list"
  | VDict "(string \<times> pyval) list"

type_synonym config = "(string \<times> pyval) list"

text \<open>Every exception of the source is a value; a raise aborts the whole call.\<close>

datatype error = KeyError string | TypeError | IndexError

text \<open>The one message the engine logs: the list directive's lengths differ. It carries
  the \<open>name\<close> of the experiment, as the format string of the source does.\<close>

datatype warning = UnequalListLengths pyval

definition has_key :: "config \<Rightarrow> string \<Rightarrow> bool" where
  "has_key c k = (map_of c k \<noteq> None)"

definition getitem :: "config \<Rightarrow> string \<Rightarrow> error + pyval" where
  "getitem c k = (case map_of c k of None \<Rightarrow> Inl (KeyError k) | Some v \<Rightarrow> Inr v)"

definition setitem :: "string \<Rightarrow> pyval \<Rightarrow> config \<Rightarrow> config" where
  "setitem k v c = AList.update k v c"

definition delitem :: "string \<Rightarrow> config \<Rightarrow> error + config" where
  "delitem k c = (if has_key c k then Inr (AList.delete k c) else Inl (KeyError k))"

fun mapM_result :: "('a \<Rightarrow> error + 'b) \<Rightarrow> 'a list \<Rightarrow> error + 'b list" where
  "mapM_result f [] = Inr []"
| "mapM_result f (x # xs) =
     (case f x of
        Inl e \<Rightarrow> Inl e
      | Inr y \<Rightarrow> (case mapM_result f xs of Inl e \<Rightarrow> Inl e | Inr ys \<Rightarrow> Inr (y # ys)))"

subsection \<open>The configuration keys\<close>

text \<open>
  Modelled from the spec: the module \<open>cw_conf_keys\<close> (imported as \<open>KEY\<close>) is not among
  the sources. The spec names the keys the engine consumes (\<open>name\<close>, \<open>path\<close>,
  \<open>repetitions\<close>, \<open>params\<close>, \<open>grid\<close>, \<open>list\<close>, \<open>ablative\<close>), the bookkeeping fields
  (\<open>_base_path\<close>, \<open>_experiment_name\<close>, \<open>_nested_dir\<close>, \<open>_rep_idx\<close>, \<open>_rep_log_path\<close>)
  and the log path (\<open>log_path\<close>). Only their being pairwise different matters below.
\<close>

definition KEY_NAME :: string where "KEY_NAME = ''name''"
definition KEY_PATH :: string where "KEY_PATH = ''path''"
definition KEY_REPS :: string where "KEY_REPS = ''repetitions''"
definition KEY_PARAMS :: string where "KEY_PARAMS = ''params''"
definition KEY_GRID :: string where "KEY_GRID = ''grid''"
definition KEY_LIST :: string where "KEY_LIST = ''list''"
definition KEY_ABLATIVE :: string where "KEY_ABLATIVE = ''ablative''"
definition KEY_i_BASIC_PATH :: string where "KEY_i_BASIC_PATH = ''_base_path''"
definition KEY_i_EXP_NAME :: string where "KEY_i_EXP_NAME = ''_experiment_name''"
definition KEY_i_NEST_DIR :: string where "KEY_i_NEST_DIR = ''_nested_dir''"
definition KEY_i_REP_IDX :: string where "KEY_i_REP_IDX = ''_rep_idx''"
definition KEY_i_REP_LOG_PATH :: string where "KEY_i_REP_LOG_PATH = ''_rep_log_path''"
definition KEY_LOG_PATH :: string where "KEY_LOG_PATH = ''log_path''"

lemmas KEY_defs =
  KEY_NAME_def KEY_PATH_def KEY_REPS_def KEY_PARAMS_def KEY_GRID_def KEY_LIST_def
  KEY_ABLATIVE_def KEY_i_BASIC_PATH_def KEY_i_EXP_NAME_def KEY_i_NEST_DIR_def
  KEY_i_REP_IDX_def KEY_i_REP_LOG_PATH_def KEY_LOG_PATH_def

section \<open>The external helpers\<close>

subsection \<open>The key-path flattener\<close>

text \<open>
  Modelled from the spec: \<open>util.flatten_dict_to_tuple_keys\<close> is not among the sources.
  The spec's contract: the leaves of the nested mapping must be lists, the returned key
  is the path of nested keys from the root to the leaf, the entries come in insertion
  order, and a leaf that is not a list is a fatal error.
\<close>

fun flatten_items :: "(string \<times> pyval) list \<Rightarrow> error + (string list \<times> pyval list) list" where
  "flatten_items [] = Inr []"
| "flatten_items ((k, v) # kvs) =
     (case v of
        VDict sub \<Rightarrow>
          (case flatten_items sub of
             Inl e \<Rightarrow> Inl e
           | Inr fs \<Rightarrow>
               (case flatten_items kvs of
                  Inl e \<Rightarrow> Inl e
                | Inr gs \<Rightarrow> Inr (map (\<lambda>(p, xs). (k # p, xs)) fs @ gs)))
      | VList xs \<Rightarrow>
          (case flatten_items kvs of
             Inl e \<Rightarrow> Inl e
           | Inr gs \<Rightarrow> Inr (([k], xs) # gs))
      | _ \<Rightarrow> Inl TypeError)"

definition flatten_dict_to_tuple_keys :: "pyval \<Rightarrow> error + (string list \<times> pyval list) list" where
  "flatten_dict_to_tuple_keys d =
     (case d of VDict kvs \<Rightarrow> flatten_items kvs | _ \<Rightarrow> Inl TypeError)"

subsection \<open>Deep insertion\<close>

text \<open>
  Modelled from the spec: \<open>util.insert_deep_dictionary\<close> is not among the sources. The
  spec's contract: it creates the intermediate levels as needed and overwrites an
  existing leaf. An empty key tuple names no leaf, and an intermediate value that is
  there but is not a mapping cannot take a key: the model makes both an error.
\<close>

fun insert_deep_dictionary :: "config \<Rightarrow> string list \<Rightarrow> pyval \<Rightarrow> error + config" where
  "insert_deep_dictionary d [] v = Inl IndexError"
| "insert_deep_dictionary d [k] v = Inr (setitem k v d)"
| "insert_deep_dictionary d (k # k' # ks) v =
     (case map_of d k of
        None \<Rightarrow>
          (case insert_deep_dictionary [] (k' # ks) v of
             Inl e \<Rightarrow> Inl e
           | Inr sub' \<Rightarrow> Inr (setitem k (VDict sub') d))
      | Some (VDict sub) \<Rightarrow>
          (case insert_deep_dictionary sub (k' # ks) v of
             Inl e \<Rightarrow> Inl e
           | Inr sub' \<Rightarrow> Inr (setitem k (VDict sub') d))
      | Some _ \<Rightarrow> Inl TypeError)"

text \<open>Reading a key-path back, to state what an insertion binds.\<close>

fun lookup_deep :: "config \<Rightarrow> string list \<Rightarrow> pyval option" where
  "lookup_deep d [] = None"
| "lookup_deep d [k] = map_of d k"
| "lookup_deep d (k # k' # ks) =
     (case map_of d k of
        Some (VDict sub) \<Rightarrow> lookup_deep sub (k' # ks)
      | _ \<Rightarrow> None)"

subsection \<open>Standard library: product, zip, join, format\<close>

datatype iter_func = Product | Zip

text \<open>\<open>zip(*lists)\<close>: position by position, as long as the shortest list; no list, no tuple.\<close>

definition py_zip :: "'a list list \<Rightarrow> 'a list list" where
  "py_zip xss =
     (if xss = [] then []
      else map (\<lambda>i. map (\<lambda>xs. xs ! i) xss) [0 ..< Min (set (map length xss))])"

text \<open>\<open>itertools.product(*lists)\<close> is \<open>product_lists\<close>: the first list varies slowest.\<close>

definition apply_iter :: "iter_func \<Rightarrow> 'a list list \<Rightarrow> 'a list list" where
  "apply_iter f xss = (case f of Product \<Rightarrow> product_lists xss | Zip \<Rightarrow> py_zip xss)"

text \<open>\<open>'.'.join(t)\<close>\<close>

fun join_dot :: "string list \<Rightarrow> string" where
  "join_dot [] = []"
| "join_dot [k] = k"
| "join_dot (k # k' # ks) = k @ ''.'' @ join_dot (k' # ks)"

text \<open>\<open>sep in name\<close> on strings: \<open>sep\<close> occurs in \<open>name\<close> as a substring.\<close>

fun str_contains :: "string \<Rightarrow> string \<Rightarrow> bool" where
  "str_contains [] sep = (sep = [])"
| "str_contains (c # cs) sep = (take (length sep) (c # cs) = sep \<or> str_contains cs sep)"

text \<open>\<open>os.path.join(a, b)\<close> of \<open>posixpath\<close>, for two strings.\<close>

definition os_path_join :: "string \<Rightarrow> string \<Rightarrow> string" where
  "os_path_join a b =
     (if take 1 b = ''/'' then b
      else if a = [] \<or> last a = CHR ''/'' then a @ b
      else a @ ''/'' @ b)"

definition digit_char :: "nat \<Rightarrow> char" where
  "digit_char d = ''0123456789'' ! (d mod 10)"

fun str_nat :: "nat \<Rightarrow> string" where
  "str_nat n = (if n < 10 then [digit_char n] else str_nat (n div 10) @ [digit_char (n mod 10)])"

text \<open>\<open>'{:02d}'.format(r)\<close> for \<open>r \<ge> 0\<close>: the decimal digits, padded with zeros to two.\<close>

definition format_02d :: "nat \<Rightarrow> string" where
  "format_02d r = (if r < 10 then ''0'' @ str_nat r else str_nat r)"

section \<open>The expansion engine\<close>

text \<open>
  \<open>util.convert_param_names\<close> is not among the sources, and the spec says only that it
  joins one short token per (name, value) pair into a suffix. Every function below that
  synthesizes a name takes it as the parameter \<open>conv\<close>. \<open>deepcopy\<close> is the identity on
  values.
\<close>

type_synonym conv = "string list \<Rightarrow> pyval list \<Rightarrow> string"

definition extend_config_name :: "conv \<Rightarrow> config \<Rightarrow> string list \<Rightarrow> pyval list \<Rightarrow> error + config" where
  "extend_config_name conv config param_names vals =
     (let converted_name = conv param_names vals in
      case map_of config KEY_i_EXP_NAME of
        None \<Rightarrow> Inl (KeyError KEY_i_EXP_NAME)
      | Some (VStr n) \<Rightarrow>
          (let sep = (if str_contains n ''__'' then ''_'' else ''__'');
               config1 = setitem KEY_i_EXP_NAME (VStr (n @ sep @ converted_name)) config
           in case getitem config1 KEY_NAME of
                Inl e \<Rightarrow> Inl e
              | Inr nm \<Rightarrow> Inr (setitem KEY_i_NEST_DIR nm config1))
      | Some _ \<Rightarrow> Inl TypeError)"

text \<open>\<open>util.insert_deep_dictionary(_config[KEY.PARAMS], t, v)\<close>: the nested dict is
  changed in place, so the configuration sees the new \<open>params\<close>.\<close>

definition insert_param :: "config \<Rightarrow> string list \<times> pyval \<Rightarrow> error + config" where
  "insert_param config tv =
     (case getitem config KEY_PARAMS of
        Inl e \<Rightarrow> Inl e
      | Inr (VDict d) \<Rightarrow>
          (case insert_deep_dictionary d (fst tv) (snd tv) of
             Inl e \<Rightarrow> Inl e
           | Inr d' \<Rightarrow> Inr (setitem KEY_PARAMS (VDict d') config))
      | Inr _ \<Rightarrow> Inl TypeError)"

fun insert_params :: "config \<Rightarrow> (string list \<times> pyval) list \<Rightarrow> error + config" where
  "insert_params config [] = Inr config"
| "insert_params config (tv # tvs) =
     (case insert_param config tv of
        Inl e \<Rightarrow> Inl e
      | Inr config' \<Rightarrow> insert_params config' tvs)"

definition ensure_params :: "config \<Rightarrow> config" where
  "ensure_params config =
     (if \<not> has_key config KEY_PARAMS then setitem KEY_PARAMS (VDict []) config else config)"

text \<open>The body of the loop of \<open>params_combine\<close>, for one tuple of values.\<close>

definition combine_one ::
  "conv \<Rightarrow> config \<Rightarrow> string \<Rightarrow> string list list \<Rightarrow> string list \<Rightarrow> pyval list \<Rightarrow> error + config" where
  "combine_one conv config key paths param_names vals =
     (case delitem key config of
        Inl e \<Rightarrow> Inl e
      | Inr c1 \<Rightarrow>
          (case insert_params (ensure_params c1) (zip paths vals) of
             Inl e \<Rightarrow> Inl e
           | Inr c2 \<Rightarrow> extend_config_name conv c2 param_names vals))"

definition params_combine ::
  "conv \<Rightarrow> config \<Rightarrow> string option \<Rightarrow> iter_func option \<Rightarrow> warning list \<times> (error + config list)" where
  "params_combine conv config key iter_func =
     (case iter_func of
        None \<Rightarrow> ([], Inr [config])
      | Some f \<Rightarrow>
          (case key of
             None \<Rightarrow> ([], Inl (KeyError ''None''))
           | Some k \<Rightarrow>
               (case getitem config k of
                  Inl e \<Rightarrow> ([], Inl e)
                | Inr directive \<Rightarrow>
                    (case flatten_dict_to_tuple_keys directive of
                       Inl e \<Rightarrow> ([], Inl e)
                     | Inr tuple_dict \<Rightarrow>
                         (let param_names = map (join_dot \<circ> fst) tuple_dict;
                              param_lengths = map (length \<circ> snd) tuple_dict;
                              combos = mapM_result
                                (combine_one conv config k (map fst tuple_dict) param_names)
                                (apply_iter f (map snd tuple_dict))
                          in if k = KEY_LIST \<and> length (remdups param_lengths) \<noteq> 1
                             then (case getitem config KEY_NAME of
                                     Inl e \<Rightarrow> ([], Inl e)
                                   | Inr nm \<Rightarrow> ([UnequalListLengths nm], combos))
                             else ([], combos))))))"

text \<open>The two inner loops of \<open>ablative_expand\<close>, for one configuration: \<open>_param_names[i]\<close>
  is a string, so the name synthesizer iterates over its characters.\<close>

definition ablative_one :: "conv \<Rightarrow> config \<Rightarrow> string list \<Rightarrow> pyval \<Rightarrow> error + config" where
  "ablative_one conv config path val =
     (case insert_param (ensure_params config) (path, val) of
        Inl e \<Rightarrow> Inl e
      | Inr c \<Rightarrow> extend_config_name conv c (map (\<lambda>ch. [ch]) (join_dot path)) [val])"

definition ablative_config :: "conv \<Rightarrow> config \<Rightarrow> error + config list" where
  "ablative_config conv config =
     (case getitem config KEY_ABLATIVE of
        Inl e \<Rightarrow> Inl e
      | Inr directive \<Rightarrow>
          (case flatten_dict_to_tuple_keys directive of
             Inl e \<Rightarrow> Inl e
           | Inr tuple_dict \<Rightarrow>
               mapM_result (\<lambda>(path, val). ablative_one conv config path val)
                 (concat (map (\<lambda>(path, vs). map (Pair path) vs) tuple_dict))))"

definition ablative_expand :: "conv \<Rightarrow> config list \<Rightarrow> error + config list" where
  "ablative_expand conv conf_list =
     (case mapM_result (ablative_config conv) conf_list of
        Inl e \<Rightarrow> Inl e
      | Inr xss \<Rightarrow> Inr (concat xss))"

text \<open>Lines 44 to 53 of \<open>expand_experiments\<close>: the defaults of the bookkeeping fields.\<close>

definition set_defaults :: "config \<Rightarrow> error + config" where
  "set_defaults config =
     (case (if \<not> has_key config KEY_i_BASIC_PATH
            then (case getitem config KEY_PATH of
                    Inl e \<Rightarrow> Inl e
                  | Inr p \<Rightarrow> Inr (setitem KEY_i_BASIC_PATH p config))
            else Inr config) of
        Inl e \<Rightarrow> Inl e
      | Inr c1 \<Rightarrow>
          (case (if \<not> has_key c1 KEY_i_EXP_NAME
                 then (case getitem c1 KEY_NAME of
                         Inl e \<Rightarrow> Inl e
                       | Inr n \<Rightarrow> Inr (setitem KEY_i_EXP_NAME n c1))
                 else Inr c1) of
             Inl e \<Rightarrow> Inl e
           | Inr c2 \<Rightarrow>
               Inr (if \<not> has_key c2 KEY_i_NEST_DIR
                    then setitem KEY_i_NEST_DIR (VStr []) c2 else c2)))"

text \<open>Lines 64 to 70: the directive of a template that does not carry both.\<close>

definition select_iter :: "config \<Rightarrow> string option \<times> iter_func option" where
  "select_iter config =
     (let r0 = (None, None);
          r1 = (if has_key config KEY_GRID then (Some KEY_GRID, Some Product) else r0)
      in if has_key config KEY_LIST then (Some KEY_LIST, Some Zip) else r1)"

text \<open>Lines 72 to 75: the expansion of one template that does not carry both directives.\<close>

definition expand_single :: "conv \<Rightarrow> config \<Rightarrow> warning list \<times> (error + config list)" where
  "expand_single conv config =
     (case params_combine conv config (fst (select_iter config)) (snd (select_iter config)) of
        (w, Inl e) \<Rightarrow> (w, Inl e)
      | (w, Inr expansion) \<Rightarrow>
          (if has_key config KEY_ABLATIVE
           then (case ablative_expand conv expansion of
                   Inl e \<Rightarrow> (w, Inl e)
                 | Inr more \<Rightarrow> (w, Inr (expansion @ more)))
           else (w, Inr expansion)))"

section \<open>Basic facts about the dict operations\<close>

lemma map_of_setitem: "map_of (setitem k v c) k' = (if k' = k then Some v else map_of c k')"
  by (simp add: setitem_def update_conv')

lemma has_key_setitem: "has_key (setitem k v c) k' = (k' = k \<or> has_key c k')"
  by (simp add: has_key_def map_of_setitem)

lemma delitem_Inr: "delitem k c = Inr c' \<Longrightarrow> has_key c k \<and> c' = AList.delete k c"
  by (auto simp: delitem_def split: if_splits)

lemma map_of_delete: "map_of (AList.delete k c) k' = (if k' = k then None else map_of c k')"
  by (simp add: delete_conv')

lemma getitem_Inr: "getitem c k = Inr v \<longleftrightarrow> map_of c k = Some v"
  by (simp add: getitem_def split: option.splits)

lemma getitem_Inl: "getitem c k = Inl e \<longleftrightarrow> map_of c k = None \<and> e = KeyError k"
  by (auto simp: getitem_def split: option.splits)

lemma mapM_result_Inr: "mapM_result f xs = Inr ys \<longleftrightarrow> list_all2 (\<lambda>x y. f x = Inr y) xs ys"
proof (induction xs arbitrary: ys)
  case Nil
  show ?case by auto
next
  case (Cons x xs)
  show ?case
    by (cases ys; cases "f x"; cases "mapM_result f xs") (auto simp: Cons.IH [symmetric])
qed

lemma mapM_result_length: "mapM_result f xs = Inr ys \<Longrightarrow> length ys = length xs"
  by (simp add: mapM_result_Inr list_all2_lengthD)

lemma mapM_result_all:
  assumes "mapM_result f xs = Inr ys" and "\<And>x y. x \<in> set xs \<Longrightarrow> f x = Inr y \<Longrightarrow> P y"
  shows "\<forall>y \<in> set ys. P y"
  using assms(1) assms(2) unfolding mapM_result_Inr
  by (induction xs ys rule: list_all2_induct) auto

subsection \<open>Which keys a step writes\<close>

lemma insert_param_other:
  "insert_param c tv = Inr c' \<Longrightarrow> k \<noteq> KEY_PARAMS \<Longrightarrow> map_of c' k = map_of c k"
  by (auto simp: insert_param_def map_of_setitem split: sum.splits pyval.splits)

lemma insert_params_other:
  "insert_params c tvs = Inr c' \<Longrightarrow> k \<noteq> KEY_PARAMS \<Longrightarrow> map_of c' k = map_of c k"
proof (induction tvs arbitrary: c)
  case Nil
  then show ?case by simp
next
  case (Cons tv tvs)
  then show ?case
    by (auto split: sum.splits dest: insert_param_other)
qed

lemma ensure_params_other: "k \<noteq> KEY_PARAMS \<Longrightarrow> map_of (ensure_params c) k = map_of c k"
  by (simp add: ensure_params_def map_of_setitem)

lemma extend_config_name_other:
  "extend_config_name conv c ns vs = Inr c' \<Longrightarrow> k \<noteq> KEY_i_EXP_NAME \<Longrightarrow> k \<noteq> KEY_i_NEST_DIR
   \<Longrightarrow> map_of c' k = map_of c k"
  by (auto simp: extend_config_name_def Let_def map_of_setitem
      split: option.splits pyval.splits sum.splits)

lemma combine_one_other:
  assumes "combine_one conv c key paths ns vs = Inr c'"
    and "k \<noteq> KEY_PARAMS" and "k \<noteq> KEY_i_EXP_NAME" and "k \<noteq> KEY_i_NEST_DIR"
  shows "map_of c' k = (if k = key then None else map_of c k)"
proof -
  from assms(1) obtain c1 c2 where
    d: "delitem key c = Inr c1" and
    i: "insert_params (ensure_params c1) (zip paths vs) = Inr c2" and
    e: "extend_config_name conv c2 ns vs = Inr c'"
    by (auto simp: combine_one_def split: sum.splits)
  have "map_of c' k = map_of c2 k"
    using extend_config_name_other [OF e assms(3) assms(4)] .
  also have "\<dots> = map_of (ensure_params c1) k"
    using insert_params_other [OF i assms(2)] .
  also have "\<dots> = map_of c1 k"
    using ensure_params_other [OF assms(2)] .
  also have "\<dots> = (if k = key then None else map_of c k)"
    using delitem_Inr [OF d] by (simp add: map_of_delete)
  finally show ?thesis .
qed

lemma params_combine_Some:
  assumes "params_combine conv c (Some key) (Some f) = (w, Inr out)"
  obtains directive tuple_dict where
    "map_of c key = Some directive"
    "flatten_dict_to_tuple_keys directive = Inr tuple_dict"
    "mapM_result (combine_one conv c key (map fst tuple_dict) (map (join_dot \<circ> fst) tuple_dict))
       (apply_iter f (map snd tuple_dict)) = Inr out"
    "w = (if key = KEY_LIST \<and> length (remdups (map (length \<circ> snd) tuple_dict)) \<noteq> 1
          then [UnequalListLengths (the (map_of c KEY_NAME))] else [])"
  using assms
  by (auto simp: params_combine_def Let_def getitem_Inr split: sum.splits if_splits)

lemma set_defaults_other:
  "set_defaults c = Inr c' \<Longrightarrow> k \<noteq> KEY_i_BASIC_PATH \<Longrightarrow> k \<noteq> KEY_i_EXP_NAME
   \<Longrightarrow> k \<noteq> KEY_i_NEST_DIR \<Longrightarrow> map_of c' k = map_of c k"
  by (auto simp: set_defaults_def map_of_setitem split: sum.splits if_splits)

lemma set_defaults_has_key_GRID: "set_defaults c = Inr c' \<Longrightarrow> has_key c' KEY_GRID = has_key c KEY_GRID"
  by (simp add: has_key_def set_defaults_other KEY_defs)

lemma set_defaults_has_key_LIST: "set_defaults c = Inr c' \<Longrightarrow> has_key c' KEY_LIST = has_key c KEY_LIST"
  by (simp add: has_key_def set_defaults_other KEY_defs)

lemma params_combine_other:
  assumes "params_combine conv c (Some key) (Some f) = (w, Inr out)" and "c' \<in> set out"
    and "k \<noteq> KEY_PARAMS" and "k \<noteq> KEY_i_EXP_NAME" and "k \<noteq> KEY_i_NEST_DIR"
  shows "map_of c' k = (if k = key then None else map_of c k)"
proof -
  from assms(1) obtain tuple_dict where
    m: "mapM_result (combine_one conv c key (map fst tuple_dict) (map (join_dot \<circ> fst) tuple_dict))
          (apply_iter f (map snd tuple_dict)) = Inr out"
    by (rule params_combine_Some)
  have "\<forall>y \<in> set out. map_of y k = (if k = key then None else map_of c k)"
    by (rule mapM_result_all [OF m]) (rule combine_one_other [OF _ assms(3) assms(4) assms(5)])
  with assms(2) show ?thesis by blast
qed

lemma params_combine_LIST_removed:
  assumes "params_combine conv c (Some KEY_LIST) (Some f) = (w, Inr out)" and "c' \<in> set out"
  shows "\<not> has_key c' KEY_LIST"
  using params_combine_other [OF assms, of KEY_LIST] by (simp add: has_key_def KEY_defs)

section \<open>The expansion driver\<close>

text \<open>
  The loop of \<open>expand_experiments\<close> runs over a list it extends while it runs: a template
  with both directives is expanded by its \<open>list\<close> and the records are appended to the
  work list (the \<open>continue\<close>); every other template is expanded on the spot and its
  records are appended to the output. The records appended to the work list carry no
  \<open>list\<close> any more, which is why the loop ends.
\<close>

definition both_directives :: "config \<Rightarrow> bool" where
  "both_directives c = (has_key c KEY_GRID \<and> has_key c KEY_LIST)"

function expand_worklist :: "conv \<Rightarrow> config list \<Rightarrow> warning list \<times> (error + config list)" where
  "expand_worklist conv [] = ([], Inr [])"
| "expand_worklist conv (config0 # rest) =
     (case set_defaults config0 of
        Inl e \<Rightarrow> ([], Inl e)
      | Inr config \<Rightarrow>
          (if both_directives config
           then (case params_combine conv config (Some KEY_LIST) (Some Zip) of
                   (w, Inl e) \<Rightarrow> (w, Inl e)
                 | (w, Inr new) \<Rightarrow>
                     (case expand_worklist conv (rest @ new) of (w', r) \<Rightarrow> (w @ w', r)))
           else (case expand_single conv config of
                   (w, Inl e) \<Rightarrow> (w, Inl e)
                 | (w, Inr expansion) \<Rightarrow>
                     (case expand_worklist conv rest of
                        (w', Inl e) \<Rightarrow> (w @ w', Inl e)
                      | (w', Inr acc) \<Rightarrow> (w @ w', Inr (expansion @ acc))))))"
  by pat_completeness auto
termination
proof (relation "measures [\<lambda>(conv, ws). length (filter both_directives ws), \<lambda>(conv, ws). length ws]")
  show "wf (measures [\<lambda>(conv, ws). length (filter both_directives ws), \<lambda>(conv, ws). length ws])"
    by simp
next
  fix conv :: conv and config0 rest config and w :: "warning list" and r new
  assume sd: "set_defaults config0 = Inr config" and b: "both_directives config"
    and x: "(w, r) = params_combine conv config (Some KEY_LIST) (Some Zip)" "r = Inr new"
  have "both_directives config0"
    using b set_defaults_has_key_GRID [OF sd] set_defaults_has_key_LIST [OF sd]
    by (simp add: both_directives_def)
  moreover have "filter both_directives new = []"
    using params_combine_LIST_removed [of conv config Zip w new] x
    by (auto simp: filter_empty_conv both_directives_def)
  ultimately show "((conv, rest @ new), (conv, config0 # rest))
      \<in> measures [\<lambda>(conv, ws). length (filter both_directives ws), \<lambda>(conv, ws). length ws]"
    by simp
next
  fix conv :: conv and config0 :: config and rest :: "config list"
  show "((conv, rest), (conv, config0 # rest))
      \<in> measures [\<lambda>(conv, ws). length (filter both_directives ws), \<lambda>(conv, ws). length ws]"
    by simp
qed

text \<open>
  \<open>conf_path.normalize_expanded_paths\<close> is not among the sources either; the spec gives
  its contract only (pure, order preserving, the same record shape with the path fields
  reconciled). \<open>expand_experiments\<close> takes it as the parameter \<open>normalize_paths\<close>, which may
  raise like any other call.
\<close>

type_synonym normalizer = "config list \<Rightarrow> error + config list"

definition expand_experiments ::
  "conv \<Rightarrow> normalizer \<Rightarrow> config list \<Rightarrow> warning list \<times> (error + config list)" where
  "expand_experiments conv normalize_paths experiment_configs =
     (case expand_worklist conv experiment_configs of
        (w, Inl e) \<Rightarrow> (w, Inl e)
      | (w, Inr expanded_config_list) \<Rightarrow> (w, normalize_paths expanded_config_list))"

section \<open>Repetition unrolling\<close>

text \<open>The body of the inner loop of \<open>unroll_exp_reps\<close>, for one repetition index.\<close>

definition unroll_rep :: "config \<Rightarrow> nat \<Rightarrow> error + config" where
  "unroll_rep config r =
     (let c = setitem KEY_i_REP_IDX (VInt (int r)) config in
      case getitem c KEY_LOG_PATH of
        Inl e \<Rightarrow> Inl e
      | Inr (VStr log_path) \<Rightarrow>
          Inr (setitem KEY_i_REP_LOG_PATH (VStr (os_path_join log_path (''rep_'' @ format_02d r))) c)
      | Inr _ \<Rightarrow> Inl TypeError)"

text \<open>One pass of the outer loop: \<open>range\<close> wants an integer and is empty below one.\<close>

definition unroll_config :: "config \<Rightarrow> error + config list" where
  "unroll_config config =
     (if has_key config KEY_i_REP_IDX then Inr [config]
      else (case getitem config KEY_REPS of
              Inl e \<Rightarrow> Inl e
            | Inr (VInt reps) \<Rightarrow> mapM_result (unroll_rep config) [0 ..< nat reps]
            | Inr _ \<Rightarrow> Inl TypeError))"

definition unroll_exp_reps :: "config list \<Rightarrow> error + config list" where
  "unroll_exp_reps exp_configs =
     (case mapM_result unroll_config exp_configs of
        Inl e \<Rightarrow> Inl e
      | Inr xss \<Rightarrow> Inr (concat xss))"

definition unfold_exps ::
  "conv \<Rightarrow> normalizer \<Rightarrow> config list \<Rightarrow> warning list \<times> (error + config list)" where
  "unfold_exps conv normalize_paths exp_configs =
     (case expand_experiments conv normalize_paths exp_configs of
        (w, Inl e) \<Rightarrow> (w, Inl e)
      | (w, Inr param_expansion) \<Rightarrow> (w, unroll_exp_reps param_expansion))"

section \<open>Instances of the external parameters\<close>

text \<open>
  To run the engine on a concrete template the two parameters need values. \<open>plain_tokens\<close>
  writes, per (name, value) pair, the name, an underscore and the value (an integer in
  decimal, a string as it is, nothing for any other value) and joins the tokens with
  underscores. \<open>keep_paths\<close> is the normalizer that returns the records as they are.
\<close>

definition str_int :: "int \<Rightarrow> string" where
  "str_int i = (if i < 0 then ''-'' @ str_nat (nat (- i)) else str_nat (nat i))"

definition plain_token :: "string \<Rightarrow> pyval \<Rightarrow> string" where
  "plain_token n v = n @ ''_'' @ (case v of VInt i \<Rightarrow> str_int i | VStr s \<Rightarrow> s | _ \<Rightarrow> [])"

fun join_underscore :: "string list \<Rightarrow> string" where
  "join_underscore [] = []"
| "join_underscore [k] = k"
| "join_underscore (k # k' # ks) = k @ ''_'' @ join_underscore (k' # ks)"

definition plain_tokens :: conv where
  "plain_tokens param_names vals = join_underscore (map2 plain_token param_names vals)"

definition keep_paths :: normalizer where
  "keep_paths cs = Inr cs"

section \<open>Key-paths\<close>

text \<open>Two key-paths are incomparable when neither is a prefix of the other; the key-paths
  of a flattened directive are pairwise incomparable when no dict repeats a key.\<close>

definition incomparable :: "string list \<Rightarrow> string list \<Rightarrow> bool" where
  "incomparable p q = (\<not> prefix p q \<and> \<not> prefix q p)"

fun prefix_free :: "string list list \<Rightarrow> bool" where
  "prefix_free [] = True"
| "prefix_free (p # ps) = ((\<forall>q \<in> set ps. incomparable p q) \<and> prefix_free ps)"

text \<open>A Python dict holds a key once, at every level of nesting.\<close>

fun distinct_keys :: "(string \<times> pyval) list \<Rightarrow> bool" where
  "distinct_keys [] = True"
| "distinct_keys ((k, v) # kvs) =
     (k \<notin> fst ` set kvs \<and> (case v of VDict sub \<Rightarrow> distinct_keys sub | _ \<Rightarrow> True) \<and> distinct_keys kvs)"

text \<open>The value a record's \<open>params\<close> tree binds at a key-path.\<close>

definition lookup_params :: "config \<Rightarrow> string list \<Rightarrow> pyval option" where
  "lookup_params c p = (case map_of c KEY_PARAMS of Some (VDict d) \<Rightarrow> lookup_deep d p | _ \<Rightarrow> None)"

lemma lookup_deep_Nil [simp]: "lookup_deep [] p = None"
  by (induction "[] :: config" p rule: lookup_deep.induct) auto

lemma lookup_deep_head:
  "map_of d k = map_of d' k \<Longrightarrow> lookup_deep d (k # ks) = lookup_deep d' (k # ks)"
  by (cases ks) auto

lemma insert_deep_lookup_same:
  "insert_deep_dictionary d p v = Inr d' \<Longrightarrow> lookup_deep d' p = Some v"
proof (induction d p v arbitrary: d' rule: insert_deep_dictionary.induct)
  case (1 d v)
  then show ?case by simp
next
  case (2 d k v)
  then show ?case by (auto simp: map_of_setitem)
next
  case (3 d k k' ks v)
  then show ?case
    by (auto simp: map_of_setitem split: option.splits pyval.splits sum.splits)
qed

lemma insert_deep_lookup_other:
  "insert_deep_dictionary d p v = Inr d' \<Longrightarrow> incomparable p q \<Longrightarrow> lookup_deep d' q = lookup_deep d q"
proof (induction d p v arbitrary: d' q rule: insert_deep_dictionary.induct)
  case (1 d v)
  then show ?case by simp
next
  case (2 d k v)
  then obtain k2 qs where q: "q = k2 # qs" and ne: "k2 \<noteq> k"
    by (cases q) (auto simp: incomparable_def)
  from 2 have "map_of d' k2 = map_of d k2"
    using ne by (auto simp: map_of_setitem)
  then show ?case unfolding q by (rule lookup_deep_head)
next
  case (3 d k k' ks v)
  from "3.prems" obtain k2 qs where q: "q = k2 # qs"
    by (cases q) (auto simp: incomparable_def)
  show ?case
  proof (cases "k2 = k")
    case False
    from "3.prems" have "map_of d' k2 = map_of d k2"
      using False by (auto simp: map_of_setitem split: option.splits pyval.splits sum.splits)
    then show ?thesis unfolding q by (rule lookup_deep_head)
  next
    case True
    with "3.prems" q obtain k3 qs' where qs: "qs = k3 # qs'"
      by (cases qs) (auto simp: incomparable_def)
    have inc: "incomparable (k' # ks) qs"
      using "3.prems"(2) q True by (simp add: incomparable_def)
    show ?thesis
    proof (cases "map_of d k")
      case None
      with "3.prems"(1) obtain sub' where
        s: "insert_deep_dictionary [] (k' # ks) v = Inr sub'" and d': "d' = setitem k (VDict sub') d"
        by (auto split: sum.splits)
      have "lookup_deep sub' qs = lookup_deep [] qs"
        using "3.IH"(1) [OF None s inc] .
      then show ?thesis
        using None by (simp add: q True qs d' map_of_setitem)
    next
      case (Some x)
      with "3.prems"(1) obtain sub sub' where x: "x = VDict sub" and
        s: "insert_deep_dictionary sub (k' # ks) v = Inr sub'" and d': "d' = setitem k (VDict sub') d"
        by (auto split: sum.splits pyval.splits)
      have "lookup_deep sub' qs = lookup_deep sub qs"
        using "3.IH"(2) [OF Some x s inc] .
      then show ?thesis
        using Some x by (simp add: q True qs d' map_of_setitem)
    qed
  qed
qed

lemma incomparable_sym: "incomparable p q \<Longrightarrow> incomparable q p"
  by (simp add: incomparable_def)

lemma incomparable_Cons [simp]: "incomparable (k # p) (k # q) = incomparable p q"
  by (simp add: incomparable_def)

lemma incomparable_heads: "k \<noteq> k' \<Longrightarrow> incomparable (k # p) (k' # q)"
  by (simp add: incomparable_def)

lemma prefix_free_append:
  "prefix_free (ps @ qs) =
     (prefix_free ps \<and> prefix_free qs \<and> (\<forall>p \<in> set ps. \<forall>q \<in> set qs. incomparable p q))"
  by (induction ps) auto

lemma prefix_free_map_Cons: "prefix_free (map ((#) k) ps) = prefix_free ps"
  by (induction ps) auto

lemma insert_param_lookup_same:
  "insert_param c (p, v) = Inr c' \<Longrightarrow> lookup_params c' p = Some v"
  by (auto simp: insert_param_def lookup_params_def map_of_setitem insert_deep_lookup_same
      split: sum.splits pyval.splits)

lemma insert_param_lookup_other:
  "insert_param c (p, v) = Inr c' \<Longrightarrow> incomparable p q \<Longrightarrow> lookup_params c' q = lookup_params c q"
  by (auto simp: insert_param_def lookup_params_def map_of_setitem getitem_Inr
      split: sum.splits pyval.splits dest: insert_deep_lookup_other)

lemma insert_params_lookup_other:
  "insert_params c tvs = Inr c' \<Longrightarrow> \<forall>p \<in> fst ` set tvs. incomparable p q
   \<Longrightarrow> lookup_params c' q = lookup_params c q"
proof (induction tvs arbitrary: c)
  case Nil
  then show ?case by simp
next
  case (Cons tv tvs)
  from Cons.prems(1) obtain c1 where
    a: "insert_param c (fst tv, snd tv) = Inr c1" and b: "insert_params c1 tvs = Inr c'"
    by (auto split: sum.splits)
  have "lookup_params c' q = lookup_params c1 q"
    using Cons.IH [OF b] Cons.prems(2) by simp
  also have "\<dots> = lookup_params c q"
    using insert_param_lookup_other [OF a] Cons.prems(2) by simp
  finally show ?case .
qed

lemma insert_params_lookup:
  "insert_params c (zip ps vs) = Inr c' \<Longrightarrow> length ps = length vs \<Longrightarrow> prefix_free ps
   \<Longrightarrow> map (lookup_params c') ps = map Some vs"
proof (induction ps vs arbitrary: c rule: list_induct2')
  case 1
  then show ?case by simp
next
  case (2 p ps)
  then show ?case by simp
next
  case (3 v vs)
  then show ?case by simp
next
  case (4 p ps v vs)
  from "4.prems"(1) obtain c1 where
    a: "insert_param c (p, v) = Inr c1" and b: "insert_params c1 (zip ps vs) = Inr c'"
    by (auto split: sum.splits)
  have "\<forall>p' \<in> fst ` set (zip ps vs). incomparable p' p"
  proof
    fix p' assume "p' \<in> fst ` set (zip ps vs)"
    then have "p' \<in> set ps" by (auto dest: set_zip_leftD)
    with "4.prems"(3) have "incomparable p p'" by simp
    then show "incomparable p' p" by (rule incomparable_sym)
  qed
  then have "lookup_params c' p = lookup_params c1 p"
    by (rule insert_params_lookup_other [OF b])
  then have "lookup_params c' p = Some v"
    using insert_param_lookup_same [OF a] by simp
  moreover have "map (lookup_params c') ps = map Some vs"
    using "4.IH" [OF b] "4.prems"(2) "4.prems"(3) by simp
  ultimately show ?case by simp
qed

subsection \<open>The flattened key-paths\<close>

lemma flatten_items_heads:
  "flatten_items kvs = Inr fs \<Longrightarrow> (p, xs) \<in> set fs \<Longrightarrow> p \<noteq> [] \<and> hd p \<in> fst ` set kvs"
proof (induction kvs arbitrary: fs p xs rule: flatten_items.induct)
  case 1
  then show ?case by simp
next
  case (2 k v kvs)
  show ?case
  proof (cases v)
    case (VDict sub)
    with "2.prems"(1) obtain f1 gs where
      f1: "flatten_items sub = Inr f1" and gs: "flatten_items kvs = Inr gs"
      and fs: "fs = map (\<lambda>(p, xs). (k # p, xs)) f1 @ gs"
      by (auto split: sum.splits)
    from "2.prems"(2) have "(p, xs) \<in> set (map (\<lambda>(p, xs). (k # p, xs)) f1) \<or> (p, xs) \<in> set gs"
      unfolding fs by simp
    then show ?thesis
    proof
      assume "(p, xs) \<in> set (map (\<lambda>(p, xs). (k # p, xs)) f1)"
      then obtain p' where "p = k # p'" by (auto simp: case_prod_unfold)
      then show ?thesis by simp
    next
      assume "(p, xs) \<in> set gs"
      from "2.IH"(3) [OF VDict f1 gs this] show ?thesis by simp
    qed
  next
    case (VList ys)
    with "2.prems"(1) obtain gs where
      gs: "flatten_items kvs = Inr gs" and fs: "fs = ([k], ys) # gs"
      by (auto split: sum.splits)
    from "2.prems"(2) have "(p, xs) = ([k], ys) \<or> (p, xs) \<in> set gs"
      unfolding fs by simp
    then show ?thesis
    proof
      assume "(p, xs) = ([k], ys)"
      then show ?thesis by simp
    next
      assume "(p, xs) \<in> set gs"
      from "2.IH"(1) [OF VList gs this] show ?thesis by simp
    qed
  next
    case VNone
    with "2.prems"(1) show ?thesis by simp
  next
    case (VInt i)
    with "2.prems"(1) show ?thesis by simp
  next
    case (VStr s)
    with "2.prems"(1) show ?thesis by simp
  qed
qed

lemma flatten_items_prefix_free:
  "flatten_items kvs = Inr fs \<Longrightarrow> distinct_keys kvs \<Longrightarrow> prefix_free (map fst fs)"
proof (induction kvs arbitrary: fs rule: flatten_items.induct)
  case 1
  then show ?case by simp
next
  case (2 k v kvs)
  have other: "incomparable (k # p) q" if "flatten_items kvs = Inr gs" and "q \<in> fst ` set gs" for gs p q
  proof -
    from that(2) obtain ys where "(q, ys) \<in> set gs" by auto
    from flatten_items_heads [OF that(1) this] obtain k' q' where "q = k' # q'" and "k' \<in> fst ` set kvs"
      by (cases q) auto
    moreover have "k \<notin> fst ` set kvs" using "2.prems"(2) by simp
    ultimately show ?thesis by (auto intro: incomparable_heads)
  qed
  show ?case
  proof (cases v)
    case (VDict sub)
    with "2.prems"(1) obtain f1 gs where
      f1: "flatten_items sub = Inr f1" and gs: "flatten_items kvs = Inr gs"
      and fs: "fs = map (\<lambda>(p, xs). (k # p, xs)) f1 @ gs"
      by (auto split: sum.splits)
    have m: "map fst fs = map ((#) k) (map fst f1) @ map fst gs"
      by (simp add: fs case_prod_unfold comp_def)
    have "prefix_free (map fst f1)"
      using "2.IH"(2) [OF VDict f1] "2.prems"(2) VDict by simp
    moreover have "prefix_free (map fst gs)"
      using "2.IH"(3) [OF VDict f1 gs] "2.prems"(2) by simp
    moreover have "prefix_free (map ((#) k) (map fst f1)) = prefix_free (map fst f1)"
      by (rule prefix_free_map_Cons)
    moreover have "\<forall>p \<in> set (map ((#) k) (map fst f1)). \<forall>q \<in> set (map fst gs). incomparable p q"
    proof (intro ballI)
      fix p q assume "p \<in> set (map ((#) k) (map fst f1))" and q: "q \<in> set (map fst gs)"
      then obtain p' where "p = k # p'" by auto
      moreover from q have "q \<in> fst ` set gs" by simp
      ultimately show "incomparable p q" using other [OF gs] by simp
    qed
    ultimately show ?thesis
      unfolding m prefix_free_append by blast
  next
    case (VList xs)
    with "2.prems"(1) obtain gs where
      gs: "flatten_items kvs = Inr gs" and fs: "fs = ([k], xs) # gs"
      by (auto split: sum.splits)
    have "prefix_free (map fst gs)"
      using "2.IH"(1) [OF VList gs] "2.prems"(2) by simp
    then show ?thesis
      using other [OF gs, of _ "[]"] by (auto simp: fs)
  next
    case VNone
    with "2.prems"(1) show ?thesis by simp
  next
    case (VInt i)
    with "2.prems"(1) show ?thesis by simp
  next
    case (VStr s)
    with "2.prems"(1) show ?thesis by simp
  qed
qed



subsection \<open>Zip\<close>


lemma py_zip_tuple_length: "t \<in> set (py_zip xss) \<Longrightarrow> length t = length xss"
  by (auto simp: py_zip_def split: if_splits)

lemma apply_iter_tuple_length: "t \<in> set (apply_iter f xss) \<Longrightarrow> length t = length xss"
  by (cases f) (auto simp: apply_iter_def py_zip_tuple_length in_set_product_lists_length)

section \<open>The name synthesizer\<close>

lemma str_contains_iff: "str_contains n sep \<longleftrightarrow> (\<exists>pre post. n = pre @ sep @ post)"
proof (induction n)
  case Nil
  show ?case by auto
next
  case (Cons c cs)
  show ?case
  proof
    assume "str_contains (c # cs) sep"
    then consider "take (length sep) (c # cs) = sep" | "str_contains cs sep" by auto
    then show "\<exists>pre post. c # cs = pre @ sep @ post"
    proof cases
      case 1
      then have "c # cs = [] @ sep @ drop (length sep) (c # cs)"
        by (metis append_Nil append_take_drop_id)
      then show ?thesis by blast
    next
      case 2
      with Cons.IH obtain pre post where "cs = pre @ sep @ post" by blast
      then have "c # cs = (c # pre) @ sep @ post" by simp
      then show ?thesis by blast
    qed
  next
    assume "\<exists>pre post. c # cs = pre @ sep @ post"
    then obtain pre post where e: "c # cs = pre @ sep @ post" by blast
    show "str_contains (c # cs) sep"
    proof (cases pre)
      case Nil
      with e have "take (length sep) (c # cs) = sep" by simp
      then show ?thesis by simp
    next
      case (Cons a pre')
      with e have "cs = pre' @ sep @ post" by simp
      with Cons.IH have "str_contains cs sep" by blast
      then show ?thesis by simp
    qed
  qed
qed

text \<open>
  C7. The name synthesizer appends the derived suffix to \<open>_experiment_name\<close> with the
  separator \<open>__\<close> when the current name does not contain \<open>__\<close>, and with the separator
  \<open>_\<close> when it does; in both cases \<open>_nested_dir\<close> becomes the value of \<open>name\<close>. Nothing
  else of the config changes. (The config carries a string as \<open>_experiment_name\<close> and
  a \<open>name\<close>; without them the source raises.)
\<close>

theorem extend_config_name_separator:
  assumes "map_of config KEY_i_EXP_NAME = Some (VStr n)" and "map_of config KEY_NAME = Some nm"
  shows "extend_config_name conv config param_names vals =
           Inr (setitem KEY_i_NEST_DIR nm
                 (setitem KEY_i_EXP_NAME
                    (VStr (n @ (if \<exists>pre post. n = pre @ ''__'' @ post then ''_'' else ''__'')
                             @ conv param_names vals)) config))"
proof -
  have "map_of (setitem KEY_i_EXP_NAME v config) KEY_NAME = Some nm" for v
    using assms(2) by (simp add: map_of_setitem KEY_defs)
  then show ?thesis
    using assms(1) by (simp add: extend_config_name_def Let_def getitem_def str_contains_iff)
qed

theorem extend_config_name_separator_witness:
  "extend_config_name plain_tokens
     [(''name'', VStr ''exp''), (''_experiment_name'', VStr ''exp'')] [''lr''] [VInt 3]
     = Inr [(''name'', VStr ''exp''), (''_experiment_name'', VStr ''exp__lr_3''),
            (''_nested_dir'', VStr ''exp'')]
   \<and> extend_config_name plain_tokens
     [(''name'', VStr ''exp''), (''_experiment_name'', VStr ''exp__lr_3'')] [''m''] [VInt 5]
     = Inr [(''name'', VStr ''exp''), (''_experiment_name'', VStr ''exp__lr_3_m_5''),
            (''_nested_dir'', VStr ''exp'')]"
proof -
  have a: "map_of [(''name'', VStr ''exp''), (''_experiment_name'', VStr ''exp'')] KEY_i_EXP_NAME
        = Some (VStr ''exp'')"
    by (simp add: KEY_defs)
  have b: "map_of [(''name'', VStr ''exp''), (''_experiment_name'', VStr ''exp'')] KEY_NAME
        = Some (VStr ''exp'')"
    by (simp add: KEY_defs)
  have c: "map_of [(''name'', VStr ''exp''), (''_experiment_name'', VStr ''exp__lr_3'')] KEY_i_EXP_NAME
        = Some (VStr ''exp__lr_3'')"
    by (simp add: KEY_defs)
  have d: "map_of [(''name'', VStr ''exp''), (''_experiment_name'', VStr ''exp__lr_3'')] KEY_NAME
        = Some (VStr ''exp'')"
    by (simp add: KEY_defs)
  have e: "(\<exists>pre post. ''exp'' = pre @ ''__'' @ post) = False"
    unfolding str_contains_iff [symmetric] by simp
  have f: "(\<exists>pre post. ''exp__lr_3'' = pre @ ''__'' @ post) = True"
    unfolding str_contains_iff [symmetric] by simp
  have g: "plain_tokens [''lr''] [VInt 3] = ''lr_3''"
    by (simp add: plain_tokens_def plain_token_def str_int_def digit_char_def)
  have h: "plain_tokens [''m''] [VInt 5] = ''m_5''"
    by (simp add: plain_tokens_def plain_token_def str_int_def digit_char_def)
  note first = extend_config_name_separator [OF a b, of plain_tokens "[''lr'']" "[VInt 3]", unfolded e g]
  note second = extend_config_name_separator [OF c d, of plain_tokens "[''m'']" "[VInt 5]", unfolded f h]
  show ?thesis
    using first second by (simp add: setitem_def KEY_defs)
qed

section \<open>The identity case of the combination engine\<close>

text \<open>
  C9. For a template with neither a \<open>grid\<close> nor a \<open>list\<close> directive the driver selects no
  iteration function, and the combination engine returns the template it was given,
  unmodified, as a singleton list and logs nothing; without an \<open>ablative\<close> directive
  that singleton is the whole expansion of the template.
\<close>

theorem params_combine_identity:
  assumes "\<not> has_key config KEY_GRID" and "\<not> has_key config KEY_LIST"
  shows "select_iter config = (None, None)
       \<and> params_combine conv config (fst (select_iter config)) (snd (select_iter config))
           = ([], Inr [config])
       \<and> (\<not> has_key config KEY_ABLATIVE \<longrightarrow> expand_single conv config = ([], Inr [config]))"
proof -
  have s: "select_iter config = (None, None)"
    using assms by (simp add: select_iter_def)
  have p: "params_combine conv config None None = ([], Inr [config])"
    by (simp add: params_combine_def)
  show ?thesis
    using p by (simp add: s expand_single_def)
qed

theorem params_combine_identity_witness:
  "\<not> has_key [(''name'', VStr ''exp''), (''path'', VStr ''/out'')] KEY_GRID
   \<and> \<not> has_key [(''name'', VStr ''exp''), (''path'', VStr ''/out'')] KEY_LIST
   \<and> params_combine plain_tokens [(''name'', VStr ''exp''), (''path'', VStr ''/out'')]
        (fst (select_iter [(''name'', VStr ''exp''), (''path'', VStr ''/out'')]))
        (snd (select_iter [(''name'', VStr ''exp''), (''path'', VStr ''/out'')]))
      = ([], Inr [[(''name'', VStr ''exp''), (''path'', VStr ''/out'')]])"
proof -
  have a: "\<not> has_key [(''name'', VStr ''exp''), (''path'', VStr ''/out'')] KEY_GRID"
    by (simp add: has_key_def KEY_defs)
  have b: "\<not> has_key [(''name'', VStr ''exp''), (''path'', VStr ''/out'')] KEY_LIST"
    by (simp add: has_key_def KEY_defs)
  show ?thesis
    using params_combine_identity [OF a b, of plain_tokens] a b by blast
qed

section \<open>Repetition unrolling\<close>








section \<open>The contract of the path normalizer\<close>

text \<open>
  The spec's contract for the normalizer: order preserving, the same record shape, only
  the path fields reconciled. \<open>keeps_length\<close> says that it returns as many records as it
  got, \<open>keeps_field k\<close> that record by record, in order, the field \<open>k\<close> is what it was.
\<close>

definition keeps_length :: "normalizer \<Rightarrow> bool" where
  "keeps_length nz = (\<forall>cs cs'. nz cs = Inr cs' \<longrightarrow> length cs' = length cs)"

definition keeps_field :: "normalizer \<Rightarrow> string \<Rightarrow> bool" where
  "keeps_field nz k =
     (\<forall>cs cs'. nz cs = Inr cs' \<longrightarrow> map (\<lambda>c. map_of c k) cs' = map (\<lambda>c. map_of c k) cs)"

lemma keeps_field_length: "keeps_field nz k \<Longrightarrow> keeps_length nz"
  unfolding keeps_field_def keeps_length_def by (metis length_map)

lemma keep_paths_keeps_length: "keeps_length keep_paths"
  by (simp add: keeps_length_def keep_paths_def)

lemma keep_paths_keeps_field: "keeps_field keep_paths k"
  by (simp add: keeps_field_def keep_paths_def)


lemma keeps_field_lookup_params:
  assumes "keeps_field nz KEY_PARAMS" and "nz cs = Inr cs'"
  shows "map (\<lambda>c. map (lookup_params c) ps) cs' = map (\<lambda>c. map (lookup_params c) ps) cs"
proof -
  from assms have m: "map (\<lambda>c. map_of c KEY_PARAMS) cs' = map (\<lambda>c. map_of c KEY_PARAMS) cs"
    by (simp add: keeps_field_def)
  then have l: "length cs' = length cs" by (rule map_eq_imp_length_eq)
  show ?thesis
  proof (rule nth_equalityI)
    show "length (map (\<lambda>c. map (lookup_params c) ps) cs') = length (map (\<lambda>c. map (lookup_params c) ps) cs)"
      using l by simp
  next
    fix i assume "i < length (map (\<lambda>c. map (lookup_params c) ps) cs')"
    then have i: "i < length cs'" by simp
    have "map (\<lambda>c. map_of c KEY_PARAMS) cs' ! i = map (\<lambda>c. map_of c KEY_PARAMS) cs ! i"
      using m by simp
    then have "map_of (cs' ! i) KEY_PARAMS = map_of (cs ! i) KEY_PARAMS"
      using i l by simp
    then have "map (lookup_params (cs' ! i)) ps = map (lookup_params (cs ! i)) ps"
      by (simp add: lookup_params_def)
    then show "map (\<lambda>c. map (lookup_params c) ps) cs' ! i = map (\<lambda>c. map (lookup_params c) ps) cs ! i"
      using i l by simp
  qed
qed

section \<open>Running the driver on one template\<close>

lemma expand_experiments_Inr:
  "expand_experiments conv nz ts = (w, Inr out)
   \<Longrightarrow> \<exists>ex. expand_worklist conv ts = (w, Inr ex) \<and> nz ex = Inr out"
  by (auto simp: expand_experiments_def split: prod.splits sum.splits)

lemma expand_worklist_Cons_single:
  assumes "set_defaults t = Inr c" and "\<not> both_directives c"
  shows "expand_worklist conv (t # rest) =
     (case expand_single conv c of
        (w, Inl e) \<Rightarrow> (w, Inl e)
      | (w, Inr expansion) \<Rightarrow>
          (case expand_worklist conv rest of
             (w', Inl e) \<Rightarrow> (w @ w', Inl e)
           | (w', Inr acc) \<Rightarrow> (w @ w', Inr (expansion @ acc))))"
  using assms by simp

lemma expand_worklist_one:
  assumes "set_defaults t = Inr c" and "\<not> both_directives c"
  shows "expand_worklist conv [t] = expand_single conv c"
  using assms by (simp split: prod.splits sum.splits)

lemma expand_worklist_defaults:
  "expand_worklist conv (t # rest) = (w, Inr ex) \<Longrightarrow> \<exists>c. set_defaults t = Inr c"
  by (cases "set_defaults t") auto

lemma set_defaults_has_key:
  "set_defaults t = Inr c \<Longrightarrow> k \<noteq> KEY_i_BASIC_PATH \<Longrightarrow> k \<noteq> KEY_i_EXP_NAME
   \<Longrightarrow> k \<noteq> KEY_i_NEST_DIR \<Longrightarrow> has_key c k = has_key t k"
  by (simp add: has_key_def set_defaults_other)

lemma combine_one_lookup:
  assumes "combine_one conv c key paths ns vs = Inr c'"
    and "length paths = length vs" and "prefix_free paths"
  shows "map (lookup_params c') paths = map Some vs"
proof -
  from assms(1) obtain c1 c2 where
    i: "insert_params (ensure_params c1) (zip paths vs) = Inr c2" and
    e: "extend_config_name conv c2 ns vs = Inr c'"
    by (auto simp: combine_one_def split: sum.splits)
  have "map_of c' KEY_PARAMS = map_of c2 KEY_PARAMS"
    by (rule extend_config_name_other [OF e]) (simp_all add: KEY_defs)
  then have "map (lookup_params c') paths = map (lookup_params c2) paths"
    by (simp add: lookup_params_def)
  also have "\<dots> = map Some vs"
    by (rule insert_params_lookup [OF i assms(2) assms(3)])
  finally show ?thesis .
qed

lemma list_all2_map_eq:
  "list_all2 (\<lambda>x y. f y = g x) xs ys \<Longrightarrow> map f ys = map g xs"
  by (induction xs ys rule: list_all2_induct) auto

text \<open>What the driver does with a template that carries a \<open>grid\<close> and nothing else.\<close>

lemma grid_only_run:
  assumes "has_key t KEY_GRID" and "\<not> has_key t KEY_LIST" and "\<not> has_key t KEY_ABLATIVE"
    and "map_of t KEY_GRID = Some g" and "flatten_dict_to_tuple_keys g = Inr flat"
    and "expand_worklist conv [t] = (w, Inr ex)"
  shows "\<exists>c. set_defaults t = Inr c \<and> w = []
     \<and> mapM_result (combine_one conv c KEY_GRID (map fst flat) (map (join_dot \<circ> fst) flat))
         (product_lists (map snd flat)) = Inr ex"
proof -
  from assms(6) obtain c where c: "set_defaults t = Inr c"
    using expand_worklist_defaults by blast
  have k: "has_key c KEY_GRID" "\<not> has_key c KEY_LIST" "\<not> has_key c KEY_ABLATIVE"
    using assms(1-3) by (simp_all add: set_defaults_has_key [OF c] KEY_defs)
  have g: "map_of c KEY_GRID = Some g"
    using assms(4) by (simp add: set_defaults_other [OF c] KEY_defs)
  have nb: "\<not> both_directives c" using k by (simp add: both_directives_def)
  have s: "select_iter c = (Some KEY_GRID, Some Product)"
    using k by (simp add: select_iter_def)
  have "expand_single conv c = (w, Inr ex)"
    using assms(6) unfolding expand_worklist_one [OF c nb] .
  then have "params_combine conv c (Some KEY_GRID) (Some Product) = (w, Inr ex)"
    using k s by (auto simp: expand_single_def split: prod.splits sum.splits)
  then have "w = [] \<and> mapM_result (combine_one conv c KEY_GRID (map fst flat) (map (join_dot \<circ> fst) flat))
         (product_lists (map snd flat)) = Inr ex"
    using g assms(5)
    by (auto simp: params_combine_def getitem_def Let_def apply_iter_def KEY_defs split: if_splits)
  with c show ?thesis by blast
qed

section \<open>Grid expansion\<close>

definition dict_keys_distinct :: "pyval \<Rightarrow> bool" where
  "dict_keys_distinct d = (case d of VDict kvs \<Rightarrow> distinct_keys kvs | _ \<Rightarrow> True)"

lemma flatten_prefix_free:
  assumes "flatten_dict_to_tuple_keys g = Inr flat" and "dict_keys_distinct g"
  shows "prefix_free (map fst flat)"
proof -
  from assms(1) obtain kvs where g: "g = VDict kvs" and f: "flatten_items kvs = Inr flat"
    by (auto simp: flatten_dict_to_tuple_keys_def split: pyval.splits)
  from assms(2) g have "distinct_keys kvs" by (simp add: dict_keys_distinct_def)
  with f show ?thesis by (rule flatten_items_prefix_free)
qed

text \<open>
  C1, as amended. For a template that carries a \<open>grid\<close> directive and no other, whose
  flattened key-paths have the candidate lists \<open>map snd flat\<close>, an expansion that
  returns holds exactly as many records as the product of the lists' lengths; the
  record at position \<open>i\<close> binds, in its \<open>params\<close> tree, the key-paths to the values of
  the \<open>i\<close>-th tuple of the cross-product, in the order in which the first key-path
  varies slowest; and the tuples of any two records differ when no candidate list
  repeats a value. (The normalizer keeps \<open>params\<close>; no dict of the directive repeats a
  key.)
\<close>

theorem grid_expansion:
  assumes "has_key t KEY_GRID" and "\<not> has_key t KEY_LIST" and "\<not> has_key t KEY_ABLATIVE"
    and "map_of t KEY_GRID = Some g" and "flatten_dict_to_tuple_keys g = Inr flat"
    and "dict_keys_distinct g"
    and "keeps_field normalize_paths KEY_PARAMS"
    and "expand_experiments conv normalize_paths [t] = (w, Inr out)"
  shows "length out = prod_list (map (length \<circ> snd) flat)
       \<and> map (\<lambda>c. map (lookup_params c) (map fst flat)) out
           = map (map Some) (product_lists (map snd flat))
       \<and> ((\<forall>vs \<in> set (map snd flat). distinct vs) \<longrightarrow>
            distinct (map (\<lambda>c. map (lookup_params c) (map fst flat)) out))"
proof -
  let ?paths = "map fst flat" and ?pl = "product_lists (map snd flat)"
  from assms(8) obtain ex where
    wl: "expand_worklist conv [t] = (w, Inr ex)" and nz: "normalize_paths ex = Inr out"
    using expand_experiments_Inr by blast
  from grid_only_run [OF assms(1-5) wl] obtain c where
    m: "mapM_result (combine_one conv c KEY_GRID ?paths (map (join_dot \<circ> fst) flat)) ?pl = Inr ex"
    by blast
  have pf: "prefix_free ?paths"
    using assms(5) assms(6) by (rule flatten_prefix_free)
  have "list_all2 (\<lambda>vs r. combine_one conv c KEY_GRID ?paths (map (join_dot \<circ> fst) flat) vs = Inr r) ?pl ex"
    using m by (simp add: mapM_result_Inr)
  then have "list_all2 (\<lambda>vs r. map (lookup_params r) ?paths = map Some vs) ?pl ex"
  proof (rule list.rel_mono_strong)
    fix vs r
    assume v: "vs \<in> set ?pl"
      and co: "combine_one conv c KEY_GRID ?paths (map (join_dot \<circ> fst) flat) vs = Inr r"
    from v have l: "length ?paths = length vs"
      by (simp add: in_set_product_lists_length)
    show "map (lookup_params r) ?paths = map Some vs"
      by (rule combine_one_lookup [OF co l pf])
  qed
  then have "map (\<lambda>r. map (lookup_params r) ?paths) ex = map (map Some) ?pl"
    by (rule list_all2_map_eq)
  then have bind: "map (\<lambda>r. map (lookup_params r) ?paths) out = map (map Some) ?pl"
    using keeps_field_lookup_params [OF assms(7) nz, of ?paths] by simp
  then have "length (map (\<lambda>r. map (lookup_params r) ?paths) out) = length (map (map Some) ?pl)"
    by simp
  then have len: "length out = prod_list (map (length \<circ> snd) flat)"
    by (simp add: length_product_lists prod_list.eq_foldr comp_def)
  have dist: "distinct (map (\<lambda>r. map (lookup_params r) ?paths) out)"
    if "\<forall>vs \<in> set (map snd flat). distinct vs"
  proof -
    from that have "distinct ?pl" by (rule distinct_product_lists)
    moreover have "inj (map (Some :: pyval \<Rightarrow> pyval option))" by (simp add: inj_def)
    ultimately have "distinct (map (map Some) ?pl)"
      by (simp add: distinct_map inj_on_def)
    then show ?thesis using bind by simp
  qed
  from len bind dist show ?thesis by blast
qed

text \<open>A template with a grid of two key-paths, and one whose grid repeats a value.\<close>

definition grid_template :: config where
  "grid_template =
     [(''name'', VStr ''exp''), (''path'', VStr ''/out''), (''repetitions'', VInt 2),
      (''grid'', VDict [(''lr'', VList [VInt 1, VInt 2]), (''m'', VList [VInt 5, VInt 6])])]"

definition grid_repeat_template :: config where
  "grid_repeat_template =
     [(''name'', VStr ''exp''), (''path'', VStr ''/out''), (''repetitions'', VInt 2),
      (''grid'', VDict [(''a'', VList [VInt 1, VInt 1])])]"

theorem grid_expansion_witness:
  "has_key grid_template KEY_GRID \<and> \<not> has_key grid_template KEY_LIST
   \<and> \<not> has_key grid_template KEY_ABLATIVE
   \<and> fst (expand_experiments plain_tokens keep_paths [grid_template]) = []
   \<and> length (projr (snd (expand_experiments plain_tokens keep_paths [grid_template]))) = 4
   \<and> map (\<lambda>c. map (lookup_params c) [[''lr''], [''m'']])
         (projr (snd (expand_experiments plain_tokens keep_paths [grid_template])))
       = [[Some (VInt 1), Some (VInt 5)], [Some (VInt 1), Some (VInt 6)],
          [Some (VInt 2), Some (VInt 5)], [Some (VInt 2), Some (VInt 6)]]"
proof -
  let ?g = "VDict [(''lr'', VList [VInt 1, VInt 2]), (''m'', VList [VInt 5, VInt 6])]"
  let ?flat = "[([''lr''], [VInt 1, VInt 2]), ([''m''], [VInt 5, VInt 6])]"
  have h1: "has_key grid_template KEY_GRID"
    and h2: "\<not> has_key grid_template KEY_LIST"
    and h3: "\<not> has_key grid_template KEY_ABLATIVE"
    and h4: "map_of grid_template KEY_GRID = Some ?g"
    by (simp_all add: has_key_def grid_template_def KEY_defs)
  have h5: "flatten_dict_to_tuple_keys ?g = Inr ?flat"
    by (simp add: flatten_dict_to_tuple_keys_def)
  have h6: "dict_keys_distinct ?g"
    by (simp add: dict_keys_distinct_def)
  have f: "fst (expand_experiments plain_tokens keep_paths [grid_template]) = []"
    by code_simp
  have "\<not> isl (snd (expand_experiments plain_tokens keep_paths [grid_template]))"
    by code_simp
  with f have run: "expand_experiments plain_tokens keep_paths [grid_template]
      = ([], Inr (projr (snd (expand_experiments plain_tokens keep_paths [grid_template]))))"
    by (cases "expand_experiments plain_tokens keep_paths [grid_template]") (auto simp: isl_def)
  note r = grid_expansion [OF h1 h2 h3 h4 h5 h6 keep_paths_keeps_field run]
  show ?thesis
    using r h1 h2 h3 f by simp
qed

text \<open>
  C1 as stated fails where a candidate list repeats a value: the two records of the
  grid \<open>a: [1, 1]\<close> bind the same tuple (and are the same record).
\<close>

theorem grid_expansion_counterexample:
  "expand_experiments plain_tokens keep_paths [grid_repeat_template] =
     ([], Inr [[(''name'', VStr ''exp''), (''path'', VStr ''/out''), (''repetitions'', VInt 2),
                (''_base_path'', VStr ''/out''), (''_experiment_name'', VStr ''exp__a_1''),
                (''_nested_dir'', VStr ''exp''), (''params'', VDict [(''a'', VInt 1)])],
               [(''name'', VStr ''exp''), (''path'', VStr ''/out''), (''repetitions'', VInt 2),
                (''_base_path'', VStr ''/out''), (''_experiment_name'', VStr ''exp__a_1''),
                (''_nested_dir'', VStr ''exp''), (''params'', VDict [(''a'', VInt 1)])]])"
  by code_simp

section \<open>Taking the work list apart\<close>

lemma set_defaults_both:
  "set_defaults t = Inr c \<Longrightarrow> both_directives c = (has_key t KEY_GRID \<and> has_key t KEY_LIST)"
  by (simp add: both_directives_def set_defaults_has_key_GRID set_defaults_has_key_LIST)

lemma expand_worklist_Cons_Inr_single:
  assumes "expand_worklist conv (t # rest) = (w, Inr ex)"
    and "\<not> (has_key t KEY_GRID \<and> has_key t KEY_LIST)"
  obtains c w1 out1 w2 acc where
    "set_defaults t = Inr c" "expand_single conv c = (w1, Inr out1)"
    "expand_worklist conv rest = (w2, Inr acc)" "ex = out1 @ acc" "w = w1 @ w2"
proof -
  from assms(1) obtain c where c: "set_defaults t = Inr c"
    using expand_worklist_defaults by blast
  have nb: "\<not> both_directives c"
    using assms(2) by (simp add: set_defaults_both [OF c])
  from assms(1) have "\<exists>w1 out1 w2 acc. expand_single conv c = (w1, Inr out1)
      \<and> expand_worklist conv rest = (w2, Inr acc) \<and> ex = out1 @ acc \<and> w = w1 @ w2"
    unfolding expand_worklist_Cons_single [OF c nb]
    by (auto split: prod.splits sum.splits)
  with c that show ?thesis by blast
qed

lemma expand_worklist_Cons_Inr_both:
  assumes "expand_worklist conv (t # rest) = (w, Inr ex)"
    and "has_key t KEY_GRID" and "has_key t KEY_LIST"
  obtains c w1 new w2 where
    "set_defaults t = Inr c" "params_combine conv c (Some KEY_LIST) (Some Zip) = (w1, Inr new)"
    "expand_worklist conv (rest @ new) = (w2, Inr ex)" "w = w1 @ w2"
proof -
  from assms(1) obtain c where c: "set_defaults t = Inr c"
    using expand_worklist_defaults by blast
  have b: "both_directives c"
    using assms(2) assms(3) by (simp add: set_defaults_both [OF c])
  from assms(1) have "\<exists>w1 new w2. params_combine conv c (Some KEY_LIST) (Some Zip) = (w1, Inr new)
      \<and> expand_worklist conv (rest @ new) = (w2, Inr ex) \<and> w = w1 @ w2"
    using c b by (auto split: prod.splits sum.splits)
  with c that show ?thesis by blast
qed

section \<open>List expansion\<close>











section \<open>Grid and list together\<close>

lemma expand_worklist_Nil_Inr: "expand_worklist conv [] = (w, Inr ex) \<Longrightarrow> ex = [] \<and> w = []"
  by simp

lemma grid_records_run:
  assumes "\<forall>r \<in> set rs. map_of r KEY_GRID = Some g \<and> \<not> has_key r KEY_LIST \<and> \<not> has_key r KEY_ABLATIVE"
    and "flatten_dict_to_tuple_keys g = Inr gflat"
    and "expand_worklist conv rs = (w, Inr ex)"
  shows "\<exists>outs. ex = concat outs
     \<and> list_all2 (\<lambda>r out. (\<exists>wr. expand_worklist conv [r] = (wr, Inr out))
                      \<and> length out = prod_list (map (length \<circ> snd) gflat)) rs outs"
  using assms(1) assms(3)
proof (induction rs arbitrary: w ex)
  case Nil
  then have "ex = []" by simp
  then show ?case by simp
next
  case (Cons r rs)
  from Cons.prems(1) have r: "map_of r KEY_GRID = Some g" "\<not> has_key r KEY_LIST" "\<not> has_key r KEY_ABLATIVE"
    by simp_all
  then have hg: "has_key r KEY_GRID" by (simp add: has_key_def)
  from r have "\<not> (has_key r KEY_GRID \<and> has_key r KEY_LIST)" by simp
  with Cons.prems(2) obtain c w1 out1 w2 acc where
    c: "set_defaults r = Inr c" and s: "expand_single conv c = (w1, Inr out1)"
    and rest: "expand_worklist conv rs = (w2, Inr acc)" and ex: "ex = out1 @ acc"
    by (rule expand_worklist_Cons_Inr_single)
  have nb: "\<not> both_directives c"
    using r by (simp add: set_defaults_both [OF c])
  have one: "expand_worklist conv [r] = (w1, Inr out1)"
    using s by (simp only: expand_worklist_one [OF c nb])
  from grid_only_run [OF hg r(2) r(3) r(1) assms(2) one] obtain c' where
    "mapM_result (combine_one conv c' KEY_GRID (map fst gflat) (map (join_dot \<circ> fst) gflat))
         (product_lists (map snd gflat)) = Inr out1"
    by blast
  then have "length out1 = length (product_lists (map snd gflat))"
    by (rule mapM_result_length)
  then have len: "length out1 = prod_list (map (length \<circ> snd) gflat)"
    by (simp add: length_product_lists prod_list.eq_foldr comp_def)
  from Cons.prems(1) have "\<forall>r \<in> set rs. map_of r KEY_GRID = Some g \<and> \<not> has_key r KEY_LIST \<and> \<not> has_key r KEY_ABLATIVE"
    by simp
  from Cons.IH [OF this rest] obtain outs where
    o: "acc = concat outs"
    and l: "list_all2 (\<lambda>r out. (\<exists>wr. expand_worklist conv [r] = (wr, Inr out))
                      \<and> length out = prod_list (map (length \<circ> snd) gflat)) rs outs"
    by blast
  have "ex = concat (out1 # outs)" using ex o by simp
  moreover have "list_all2 (\<lambda>r out. (\<exists>wr. expand_worklist conv [r] = (wr, Inr out))
                      \<and> length out = prod_list (map (length \<circ> snd) gflat)) (r # rs) (out1 # outs)"
    using l one len by blast
  ultimately show ?case by blast
qed

lemma length_concat_const:
  "list_all2 (\<lambda>x ys. length ys = n) xs yss \<Longrightarrow> length (concat yss) = length xs * n"
  by (induction xs yss rule: list_all2_induct) auto

text \<open>
  C2, as amended. For a template that carries both a \<open>grid\<close> and a \<open>list\<close> directive and
  no \<open>ablative\<close> one, an expansion that returns holds exactly \<open>n * g\<close> records, \<open>n\<close> the
  number of tuples the list pairing yields and \<open>g\<close> the cardinality of the grid's
  cross-product: the \<open>list\<close> directive is resolved first by positional pairing, which
  gives \<open>n\<close> records without \<open>list\<close> and with the \<open>grid\<close> of the template; these are what
  the work list then holds, and each of them is expanded as a template with a grid
  only, into \<open>g\<close> records; the output is the normalizer's result on all of these, in
  order.
\<close>

theorem grid_list_expansion:
  assumes "has_key t KEY_GRID" and "has_key t KEY_LIST" and "\<not> has_key t KEY_ABLATIVE"
    and "map_of t KEY_LIST = Some l" and "flatten_dict_to_tuple_keys l = Inr lflat"
    and "map_of t KEY_GRID = Some g" and "flatten_dict_to_tuple_keys g = Inr gflat"
    and "keeps_length normalize_paths"
    and "expand_experiments conv normalize_paths [t] = (w, Inr out)"
  shows "length out = length (py_zip (map snd lflat)) * prod_list (map (length \<circ> snd) gflat)
       \<and> (\<exists>c w1 new outs.
             set_defaults t = Inr c
           \<and> params_combine conv c (Some KEY_LIST) (Some Zip) = (w1, Inr new)
           \<and> length new = length (py_zip (map snd lflat))
           \<and> (\<forall>r \<in> set new. \<not> has_key r KEY_LIST \<and> map_of r KEY_GRID = Some g)
           \<and> list_all2 (\<lambda>r out. (\<exists>wr. expand_worklist conv [r] = (wr, Inr out))
                            \<and> length out = prod_list (map (length \<circ> snd) gflat)) new outs
           \<and> normalize_paths (concat outs) = Inr out)"
proof -
  from assms(9) obtain ex where
    wl: "expand_worklist conv [t] = (w, Inr ex)" and nz: "normalize_paths ex = Inr out"
    using expand_experiments_Inr by blast
  from wl assms(1) assms(2) obtain c w1 new w2 where
    c: "set_defaults t = Inr c"
    and pc: "params_combine conv c (Some KEY_LIST) (Some Zip) = (w1, Inr new)"
    and rest: "expand_worklist conv ([] @ new) = (w2, Inr ex)"
    by (rule expand_worklist_Cons_Inr_both)
  have cl: "map_of c KEY_LIST = Some l" and cg: "map_of c KEY_GRID = Some g"
    and ca: "map_of c KEY_ABLATIVE = None"
    using assms(3) assms(4) assms(6)
    by (simp_all add: set_defaults_other [OF c] KEY_defs has_key_def)
  from pc obtain directive tuple_dict where
    d: "map_of c KEY_LIST = Some directive"
    and f: "flatten_dict_to_tuple_keys directive = Inr tuple_dict"
    and m: "mapM_result (combine_one conv c KEY_LIST (map fst tuple_dict) (map (join_dot \<circ> fst) tuple_dict))
       (apply_iter Zip (map snd tuple_dict)) = Inr new"
    by (rule params_combine_Some)
  from d cl f assms(5) have td: "tuple_dict = lflat" by simp
  have n: "length new = length (py_zip (map snd lflat))"
    using mapM_result_length [OF m] by (simp add: td apply_iter_def)
  have keys: "map_of r KEY_GRID = Some g \<and> \<not> has_key r KEY_LIST \<and> \<not> has_key r KEY_ABLATIVE"
    if "r \<in> set new" for r
    using params_combine_other [OF pc that, of KEY_GRID]
      params_combine_other [OF pc that, of KEY_LIST]
      params_combine_other [OF pc that, of KEY_ABLATIVE] cg ca
    by (simp add: KEY_defs has_key_def)
  then have all: "\<forall>r \<in> set new. map_of r KEY_GRID = Some g \<and> \<not> has_key r KEY_LIST \<and> \<not> has_key r KEY_ABLATIVE"
    by blast
  from rest have rest': "expand_worklist conv new = (w2, Inr ex)" by simp
  from grid_records_run [OF all assms(7) rest'] obtain outs where
    ex: "ex = concat outs"
    and l: "list_all2 (\<lambda>r out. (\<exists>wr. expand_worklist conv [r] = (wr, Inr out))
                      \<and> length out = prod_list (map (length \<circ> snd) gflat)) new outs"
    by blast
  from l have "list_all2 (\<lambda>r out. length out = prod_list (map (length \<circ> snd) gflat)) new outs"
    by (rule list_all2_mono) blast
  then have "length (concat outs) = length new * prod_list (map (length \<circ> snd) gflat)"
    by (rule length_concat_const)
  moreover have "length out = length ex"
    using assms(8) nz by (simp add: keeps_length_def)
  ultimately have len: "length out = length (py_zip (map snd lflat)) * prod_list (map (length \<circ> snd) gflat)"
    using ex n by simp
  have "\<forall>r \<in> set new. \<not> has_key r KEY_LIST \<and> map_of r KEY_GRID = Some g"
    using all by blast
  with c pc n l nz ex len show ?thesis by blast
qed

text \<open>A template with a list of two usable pairs and a grid of four combinations, and one
  with a list of one tuple, a grid of two values and an ablative factor.\<close>

definition grid_list_template :: config where
  "grid_list_template =
     [(''name'', VStr ''exp''), (''path'', VStr ''/out''), (''repetitions'', VInt 2),
      (''grid'', VDict [(''o'', VDict [(''lr'', VList [VInt 1, VInt 2]), (''m'', VList [VInt 5, VInt 6])])]),
      (''list'', VDict [(''x'', VList [VInt 1, VInt 2, VInt 3]), (''y'', VList [VInt 5, VInt 6])])]"

definition grid_list_ablative_template :: config where
  "grid_list_ablative_template =
     [(''name'', VStr ''exp''), (''path'', VStr ''/out''), (''repetitions'', VInt 2),
      (''grid'', VDict [(''a'', VList [VInt 1, VInt 2])]),
      (''list'', VDict [(''x'', VList [VInt 1])]),
      (''ablative'', VDict [(''b'', VList [VInt 7])])]"

theorem grid_list_expansion_witness:
  "has_key grid_list_template KEY_GRID \<and> has_key grid_list_template KEY_LIST
   \<and> \<not> has_key grid_list_template KEY_ABLATIVE
   \<and> length (py_zip [[VInt 1, VInt 2, VInt 3], [VInt 5, VInt 6]]) = 2
   \<and> length (projr (snd (expand_experiments plain_tokens keep_paths [grid_list_template]))) = 8"
proof -
  let ?l = "VDict [(''x'', VList [VInt 1, VInt 2, VInt 3]), (''y'', VList [VInt 5, VInt 6])]"
  let ?lflat = "[([''x''], [VInt 1, VInt 2, VInt 3]), ([''y''], [VInt 5, VInt 6])]"
  let ?g = "VDict [(''o'', VDict [(''lr'', VList [VInt 1, VInt 2]), (''m'', VList [VInt 5, VInt 6])])]"
  let ?gflat = "[([''o'', ''lr''], [VInt 1, VInt 2]), ([''o'', ''m''], [VInt 5, VInt 6])]"
  have h1: "has_key grid_list_template KEY_GRID"
    and h2: "has_key grid_list_template KEY_LIST"
    and h3: "\<not> has_key grid_list_template KEY_ABLATIVE"
    and h4: "map_of grid_list_template KEY_LIST = Some ?l"
    and h6: "map_of grid_list_template KEY_GRID = Some ?g"
    by (simp_all add: has_key_def grid_list_template_def KEY_defs)
  have h5: "flatten_dict_to_tuple_keys ?l = Inr ?lflat"
    by (simp add: flatten_dict_to_tuple_keys_def)
  have h7: "flatten_dict_to_tuple_keys ?g = Inr ?gflat"
    by (simp add: flatten_dict_to_tuple_keys_def)
  have z: "length (py_zip [[VInt 1, VInt 2, VInt 3], [VInt 5, VInt 6]]) = 2"
    by (simp add: py_zip_def)
  have "\<not> isl (snd (expand_experiments plain_tokens keep_paths [grid_list_template]))"
    by code_simp
  then have run: "expand_experiments plain_tokens keep_paths [grid_list_template]
      = (fst (expand_experiments plain_tokens keep_paths [grid_list_template]),
         Inr (projr (snd (expand_experiments plain_tokens keep_paths [grid_list_template]))))"
    by (cases "expand_experiments plain_tokens keep_paths [grid_list_template]") (auto simp: isl_def)
  from grid_list_expansion [OF h1 h2 h3 h4 h5 h6 h7 keep_paths_keeps_length run]
  have "length (projr (snd (expand_experiments plain_tokens keep_paths [grid_list_template])))
      = length (py_zip (map snd ?lflat)) * prod_list (map (length \<circ> snd) ?gflat)"
    by (rule conjunct1)
  then have "length (projr (snd (expand_experiments plain_tokens keep_paths [grid_list_template]))) = 8"
    using z by simp
  with h1 h2 h3 z show ?thesis by simp
qed

text \<open>
  C2 as stated fails for a template that carries an \<open>ablative\<close> directive besides: the
  list pairing yields one tuple, the grid has two combinations, and four records come
  out, the two of the grid and an ablative variant of each.
\<close>

theorem grid_list_expansion_counterexample:
  "has_key grid_list_ablative_template KEY_GRID \<and> has_key grid_list_ablative_template KEY_LIST
   \<and> fst (expand_experiments plain_tokens keep_paths [grid_list_ablative_template]) = []
   \<and> map (\<lambda>c. map_of c KEY_i_EXP_NAME)
        (projr (snd (expand_experiments plain_tokens keep_paths [grid_list_ablative_template])))
      = [Some (VStr ''exp__x_1_a_1''), Some (VStr ''exp__x_1_a_2''),
         Some (VStr ''exp__x_1_a_1_b_7''), Some (VStr ''exp__x_1_a_2_b_7'')]
   \<and> length (py_zip [[VInt 1]]) * prod_list [length [VInt 1, VInt 2]] = 2"
  by code_simp

section \<open>Ablative expansion\<close>




lemma ablative_one_other:
  assumes "ablative_one conv c p v = Inr c'"
    and "k \<noteq> KEY_PARAMS" and "k \<noteq> KEY_i_EXP_NAME" and "k \<noteq> KEY_i_NEST_DIR"
  shows "map_of c' k = map_of c k"
proof -
  from assms(1) obtain c1 where
    i: "insert_param (ensure_params c) (p, v) = Inr c1"
    and e: "extend_config_name conv c1 (map (\<lambda>ch. [ch]) (join_dot p)) [v] = Inr c'"
    by (auto simp: ablative_one_def split: sum.splits)
  have "map_of c' k = map_of c1 k"
    using extend_config_name_other [OF e assms(3) assms(4)] .
  also have "\<dots> = map_of (ensure_params c) k"
    using insert_param_other [OF i assms(2)] .
  also have "\<dots> = map_of c k"
    using ensure_params_other [OF assms(2)] .
  finally show ?thesis .
qed



lemma ablative_expand_Inr:
  assumes "ablative_expand conv base = Inr more"
  shows "\<exists>groups. more = concat groups
     \<and> list_all2 (\<lambda>b grp. ablative_config conv b = Inr grp) base groups"
  using assms by (auto simp: ablative_expand_def mapM_result_Inr split: sum.splits)

lemma select_iter_cases:
  "select_iter c = (None, None) \<or> select_iter c = (Some KEY_GRID, Some Product)
   \<or> select_iter c = (Some KEY_LIST, Some Zip)"
  by (simp add: select_iter_def)

text \<open>The combination engine, as the driver calls it, leaves every field but the
  directive it resolves, \<open>params\<close> and the two name fields as it is.\<close>

lemma params_combine_select_other:
  assumes "params_combine conv c (fst (select_iter c)) (snd (select_iter c)) = (w, Inr base)"
    and "b \<in> set base"
    and "k \<noteq> KEY_PARAMS" and "k \<noteq> KEY_i_EXP_NAME" and "k \<noteq> KEY_i_NEST_DIR"
    and "k \<noteq> KEY_GRID" and "k \<noteq> KEY_LIST"
  shows "map_of b k = map_of c k"
proof -
  consider "select_iter c = (None, None)" | "select_iter c = (Some KEY_GRID, Some Product)"
    | "select_iter c = (Some KEY_LIST, Some Zip)"
    using select_iter_cases by blast
  then show ?thesis
  proof cases
    case 1
    with assms(1) assms(2) show ?thesis by (auto simp: params_combine_def)
  next
    case 2
    with assms(1) have "params_combine conv c (Some KEY_GRID) (Some Product) = (w, Inr base)" by simp
    from params_combine_other [OF this assms(2) assms(3) assms(4) assms(5)] assms(6)
    show ?thesis by simp
  next
    case 3
    with assms(1) have "params_combine conv c (Some KEY_LIST) (Some Zip) = (w, Inr base)" by simp
    from params_combine_other [OF this assms(2) assms(3) assms(4) assms(5)] assms(7)
    show ?thesis by simp
  qed
qed

lemma expand_single_Inr:
  assumes "expand_single conv c = (w, Inr out)"
  obtains base where
    "params_combine conv c (fst (select_iter c)) (snd (select_iter c)) = (w, Inr base)"
    "if has_key c KEY_ABLATIVE then \<exists>more. ablative_expand conv base = Inr more \<and> out = base @ more
     else out = base"
  using assms by (auto simp: expand_single_def split: prod.splits sum.splits if_splits)

















text \<open>The ablative example of the spec: fixed parameters \<open>a = 1\<close>, \<open>b = 2\<close>, factors \<open>a: [9]\<close>
  and \<open>b: [8, 7]\<close>; and a template whose only ablative value is the fixed one.\<close>

definition ablative_template :: config where
  "ablative_template =
     [(''name'', VStr ''exp''), (''path'', VStr ''/out''), (''repetitions'', VInt 2),
      (''params'', VDict [(''a'', VInt 1), (''b'', VInt 2)]),
      (''ablative'', VDict [(''a'', VList [VInt 9]), (''b'', VList [VInt 8, VInt 7])])]"



section \<open>Which directive keys the records keep\<close>

lemma select_iter_eq:
  "select_iter c =
     (if has_key c KEY_LIST then (Some KEY_LIST, Some Zip)
      else if has_key c KEY_GRID then (Some KEY_GRID, Some Product) else (None, None))"
  by (simp add: select_iter_def)

lemma base_no_directive:
  assumes "params_combine conv c (fst (select_iter c)) (snd (select_iter c)) = (w, Inr base)"
    and "\<not> both_directives c" and "b \<in> set base"
  shows "map_of b KEY_GRID = None \<and> map_of b KEY_LIST = None"
proof (cases "has_key c KEY_LIST")
  case True
  have ng: "map_of c KEY_GRID = None"
    using True assms(2) by (auto simp: both_directives_def has_key_def)
  from True assms(1) have "params_combine conv c (Some KEY_LIST) (Some Zip) = (w, Inr base)"
    by (simp add: select_iter_eq)
  from params_combine_other [OF this assms(3), of KEY_GRID]
    params_combine_other [OF this assms(3), of KEY_LIST] ng
  show ?thesis by (simp add: KEY_defs)
next
  case False
  then have nl: "map_of c KEY_LIST = None" by (simp add: has_key_def)
  show ?thesis
  proof (cases "has_key c KEY_GRID")
    case True
    with False assms(1) have "params_combine conv c (Some KEY_GRID) (Some Product) = (w, Inr base)"
      by (simp add: select_iter_eq)
    from params_combine_other [OF this assms(3), of KEY_GRID]
      params_combine_other [OF this assms(3), of KEY_LIST] nl
    show ?thesis by (simp add: KEY_defs)
  next
    case g: False
    with False assms(1) have "base = [c]"
      by (simp add: select_iter_eq params_combine_def)
    with assms(3) False g show ?thesis by (simp add: has_key_def)
  qed
qed

lemma ablative_expand_other:
  assumes "ablative_expand conv base = Inr more" and "r \<in> set more"
    and "k \<noteq> KEY_PARAMS" and "k \<noteq> KEY_i_EXP_NAME" and "k \<noteq> KEY_i_NEST_DIR"
  shows "\<exists>b \<in> set base. map_of r k = map_of b k"
proof -
  from ablative_expand_Inr [OF assms(1)] obtain groups where
    more: "more = concat groups"
    and g: "list_all2 (\<lambda>b grp. ablative_config conv b = Inr grp) base groups"
    by blast
  from assms(2) more obtain grp where grp: "grp \<in> set groups" and r: "r \<in> set grp" by auto
  from grp obtain i where i: "i < length groups" and gi: "groups ! i = grp"
    by (auto simp: in_set_conv_nth)
  from g have lg: "length base = length groups" by (rule list_all2_lengthD)
  from g i lg have "ablative_config conv (base ! i) = Inr (groups ! i)"
    by (simp add: list_all2_conv_all_nth)
  moreover have "base ! i \<in> set base" using i lg by simp
  ultimately obtain b where b: "b \<in> set base" and ac: "ablative_config conv b = Inr grp"
    using gi by blast
  from ac obtain pvs where
    "mapM_result (\<lambda>(path, val). ablative_one conv b path val) pvs = Inr grp"
    by (auto simp: ablative_config_def split: sum.splits)
  then have "\<forall>y \<in> set grp. map_of y k = map_of b k"
    by (rule mapM_result_all) (auto dest: ablative_one_other [OF _ assms(3) assms(4) assms(5)])
  with r b show ?thesis by blast
qed

lemma expand_single_no_directive:
  assumes "expand_single conv c = (w, Inr out)" and "\<not> both_directives c" and "r \<in> set out"
  shows "map_of r KEY_GRID = None \<and> map_of r KEY_LIST = None"
proof -
  from assms(1) obtain base where
    pc: "params_combine conv c (fst (select_iter c)) (snd (select_iter c)) = (w, Inr base)"
    and ab: "if has_key c KEY_ABLATIVE then \<exists>more. ablative_expand conv base = Inr more \<and> out = base @ more
     else out = base"
    by (rule expand_single_Inr)
  have base: "map_of b KEY_GRID = None \<and> map_of b KEY_LIST = None" if "b \<in> set base" for b
    using base_no_directive [OF pc assms(2) that] .
  show ?thesis
  proof (cases "r \<in> set base")
    case True
    then show ?thesis by (rule base)
  next
    case False
    with ab assms(3) obtain more where
      ae: "ablative_expand conv base = Inr more" and r: "r \<in> set more"
      by (auto split: if_splits)
    from ablative_expand_other [OF ae r, of KEY_GRID] obtain b1 where
      "b1 \<in> set base" "map_of r KEY_GRID = map_of b1 KEY_GRID" by (auto simp: KEY_defs)
    moreover from ablative_expand_other [OF ae r, of KEY_LIST] obtain b2 where
      "b2 \<in> set base" "map_of r KEY_LIST = map_of b2 KEY_LIST" by (auto simp: KEY_defs)
    ultimately show ?thesis using base by simp
  qed
qed

lemma expand_single_ablative:
  assumes "expand_single conv c = (w, Inr out)" and "r \<in> set out"
  shows "map_of r KEY_ABLATIVE = map_of c KEY_ABLATIVE"
proof -
  from assms(1) obtain base where
    pc: "params_combine conv c (fst (select_iter c)) (snd (select_iter c)) = (w, Inr base)"
    and ab: "if has_key c KEY_ABLATIVE then \<exists>more. ablative_expand conv base = Inr more \<and> out = base @ more
     else out = base"
    by (rule expand_single_Inr)
  have base: "map_of b KEY_ABLATIVE = map_of c KEY_ABLATIVE" if "b \<in> set base" for b
    by (rule params_combine_select_other [OF pc that]) (simp_all add: KEY_defs)
  show ?thesis
  proof (cases "r \<in> set base")
    case True
    then show ?thesis by (rule base)
  next
    case False
    with ab assms(2) obtain more where
      ae: "ablative_expand conv base = Inr more" and r: "r \<in> set more"
      by (auto split: if_splits)
    from ablative_expand_other [OF ae r, of KEY_ABLATIVE] obtain b where
      "b \<in> set base" "map_of r KEY_ABLATIVE = map_of b KEY_ABLATIVE" by (auto simp: KEY_defs)
    then show ?thesis using base by simp
  qed
qed

lemma expand_worklist_no_directive:
  "expand_worklist conv ts = (w, Inr ex) \<Longrightarrow> r \<in> set ex
   \<Longrightarrow> map_of r KEY_GRID = None \<and> map_of r KEY_LIST = None"
proof (induction conv ts arbitrary: w ex rule: expand_worklist.induct)
  case (1 conv)
  then show ?case by simp
next
  case (2 conv t rest)
  show ?case
  proof (cases "has_key t KEY_GRID \<and> has_key t KEY_LIST")
    case True
    then have tg: "has_key t KEY_GRID" and tl: "has_key t KEY_LIST" by simp_all
    from "2.prems"(1) tg tl obtain c w1 new w2 where
      c: "set_defaults t = Inr c"
      and pc: "params_combine conv c (Some KEY_LIST) (Some Zip) = (w1, Inr new)"
      and rest: "expand_worklist conv (rest @ new) = (w2, Inr ex)"
      by (rule expand_worklist_Cons_Inr_both)
    have b: "both_directives c" using True by (simp add: set_defaults_both [OF c])
    show ?thesis
      by (rule "2.IH"(1) [OF c b pc [symmetric] refl rest "2.prems"(2)])
  next
    case False
    with "2.prems"(1) obtain c w1 out1 w2 acc where
      c: "set_defaults t = Inr c" and s: "expand_single conv c = (w1, Inr out1)"
      and rest: "expand_worklist conv rest = (w2, Inr acc)" and ex: "ex = out1 @ acc"
      by (rule expand_worklist_Cons_Inr_single)
    have nb: "\<not> both_directives c" using False by (simp add: set_defaults_both [OF c])
    from "2.prems"(2) ex consider "r \<in> set out1" | "r \<in> set acc" by auto
    then show ?thesis
    proof cases
      case 1
      then show ?thesis by (rule expand_single_no_directive [OF s nb])
    next
      case 2
      then show ?thesis by (rule "2.IH"(2) [OF c nb s [symmetric] refl rest])
    qed
  qed
qed

lemma expand_worklist_ablative:
  "expand_worklist conv ts = (w, Inr ex) \<Longrightarrow> \<forall>t \<in> set ts. has_key t KEY_ABLATIVE \<Longrightarrow> r \<in> set ex
   \<Longrightarrow> has_key r KEY_ABLATIVE"
proof (induction conv ts arbitrary: w ex rule: expand_worklist.induct)
  case (1 conv)
  then show ?case by simp
next
  case (2 conv t rest)
  from "2.prems"(2) have ta: "has_key t KEY_ABLATIVE" and ra: "\<forall>t \<in> set rest. has_key t KEY_ABLATIVE"
    by simp_all
  show ?case
  proof (cases "has_key t KEY_GRID \<and> has_key t KEY_LIST")
    case True
    then have tg: "has_key t KEY_GRID" and tl: "has_key t KEY_LIST" by simp_all
    from "2.prems"(1) tg tl obtain c w1 new w2 where
      c: "set_defaults t = Inr c"
      and pc: "params_combine conv c (Some KEY_LIST) (Some Zip) = (w1, Inr new)"
      and rest: "expand_worklist conv (rest @ new) = (w2, Inr ex)"
      by (rule expand_worklist_Cons_Inr_both)
    have b: "both_directives c" using True by (simp add: set_defaults_both [OF c])
    have ca: "has_key c KEY_ABLATIVE"
      using ta by (simp add: set_defaults_has_key [OF c] KEY_defs)
    have "has_key x KEY_ABLATIVE" if "x \<in> set new" for x
      using params_combine_other [OF pc that, of KEY_ABLATIVE] ca
      by (simp add: has_key_def KEY_defs)
    with ra have "\<forall>t \<in> set (rest @ new). has_key t KEY_ABLATIVE" by auto
    then show ?thesis
      by (rule "2.IH"(1) [OF c b pc [symmetric] refl rest _ "2.prems"(3)])
  next
    case False
    with "2.prems"(1) obtain c w1 out1 w2 acc where
      c: "set_defaults t = Inr c" and s: "expand_single conv c = (w1, Inr out1)"
      and rest: "expand_worklist conv rest = (w2, Inr acc)" and ex: "ex = out1 @ acc"
      by (rule expand_worklist_Cons_Inr_single)
    have nb: "\<not> both_directives c" using False by (simp add: set_defaults_both [OF c])
    have ca: "has_key c KEY_ABLATIVE"
      using ta by (simp add: set_defaults_has_key [OF c] KEY_defs)
    from "2.prems"(3) ex consider "r \<in> set out1" | "r \<in> set acc" by auto
    then show ?thesis
    proof cases
      case 1
      from expand_single_ablative [OF s 1] ca show ?thesis by (simp add: has_key_def)
    next
      case 2
      then show ?thesis by (rule "2.IH"(2) [OF c nb s [symmetric] refl rest ra])
    qed
  qed
qed

lemma keeps_field_mem:
  assumes "keeps_field nz k" and "nz ex = Inr out" and "r \<in> set out"
  shows "\<exists>e \<in> set ex. map_of r k = map_of e k"
proof -
  from assms(1) assms(2) have "map (\<lambda>c. map_of c k) out = map (\<lambda>c. map_of c k) ex"
    by (simp add: keeps_field_def)
  then have "set (map (\<lambda>c. map_of c k) out) = set (map (\<lambda>c. map_of c k) ex)" by simp
  moreover have "map_of r k \<in> set (map (\<lambda>c. map_of c k) out)" using assms(3) by simp
  ultimately have "map_of r k \<in> set (map (\<lambda>c. map_of c k) ex)" by simp
  then show ?thesis by auto
qed

text \<open>
  C6, as amended. Every record the expansion returns (after grid/list combination and
  ablative expansion) has the \<open>grid\<close> and the \<open>list\<close> key removed. The \<open>ablative\<close> key is
  removed nowhere: where every template carries one, every record returned carries it
  too. (The normalizer keeps the three fields.)
\<close>

theorem directive_keys_removed:
  assumes "expand_experiments conv normalize_paths ts = (w, Inr out)"
    and "keeps_field normalize_paths KEY_GRID" and "keeps_field normalize_paths KEY_LIST"
    and "keeps_field normalize_paths KEY_ABLATIVE"
  shows "(\<forall>r \<in> set out. \<not> has_key r KEY_GRID \<and> \<not> has_key r KEY_LIST)
       \<and> ((\<forall>t \<in> set ts. has_key t KEY_ABLATIVE) \<longrightarrow> (\<forall>r \<in> set out. has_key r KEY_ABLATIVE))"
proof -
  from assms(1) obtain ex where
    wl: "expand_worklist conv ts = (w, Inr ex)" and nz: "normalize_paths ex = Inr out"
    using expand_experiments_Inr by blast
  have "\<not> has_key r KEY_GRID \<and> \<not> has_key r KEY_LIST" if "r \<in> set out" for r
  proof -
    from keeps_field_mem [OF assms(2) nz that] obtain e1 where
      "e1 \<in> set ex" "map_of r KEY_GRID = map_of e1 KEY_GRID" by blast
    moreover from keeps_field_mem [OF assms(3) nz that] obtain e2 where
      "e2 \<in> set ex" "map_of r KEY_LIST = map_of e2 KEY_LIST" by blast
    ultimately show ?thesis
      using expand_worklist_no_directive [OF wl] by (simp add: has_key_def)
  qed
  moreover have "has_key r KEY_ABLATIVE"
    if "\<forall>t \<in> set ts. has_key t KEY_ABLATIVE" and "r \<in> set out" for r
  proof -
    from keeps_field_mem [OF assms(4) nz that(2)] obtain e where
      "e \<in> set ex" "map_of r KEY_ABLATIVE = map_of e KEY_ABLATIVE" by blast
    then show ?thesis
      using expand_worklist_ablative [OF wl that(1)] by (simp add: has_key_def)
  qed
  ultimately show ?thesis by blast
qed

theorem directive_keys_removed_witness:
  "has_key grid_list_ablative_template KEY_ABLATIVE
   \<and> list_all (\<lambda>r. \<not> has_key r KEY_GRID \<and> \<not> has_key r KEY_LIST \<and> has_key r KEY_ABLATIVE)
       (projr (snd (expand_experiments plain_tokens keep_paths [grid_list_ablative_template])))
   \<and> length (projr (snd (expand_experiments plain_tokens keep_paths [grid_list_ablative_template]))) = 4"
proof -
  have h: "has_key grid_list_ablative_template KEY_ABLATIVE"
    by (simp add: has_key_def grid_list_ablative_template_def KEY_defs)
  have "\<not> isl (snd (expand_experiments plain_tokens keep_paths [grid_list_ablative_template]))"
    by code_simp
  then have run: "expand_experiments plain_tokens keep_paths [grid_list_ablative_template]
      = (fst (expand_experiments plain_tokens keep_paths [grid_list_ablative_template]),
         Inr (projr (snd (expand_experiments plain_tokens keep_paths [grid_list_ablative_template]))))"
    by (cases "expand_experiments plain_tokens keep_paths [grid_list_ablative_template]")
      (auto simp: isl_def)
  have l: "length (projr (snd (expand_experiments plain_tokens keep_paths [grid_list_ablative_template]))) = 4"
    by code_simp
  from directive_keys_removed [OF run keep_paths_keeps_field keep_paths_keeps_field keep_paths_keeps_field] h
  show ?thesis
    using l by (simp add: list_all_iff)
qed

text \<open>
  C6 as stated fails for the \<open>ablative\<close> key: all four records of the spec's ablative
  example still carry it.
\<close>

theorem directive_keys_removed_counterexample:
  "map (\<lambda>r. has_key r KEY_ABLATIVE)
     (projr (snd (expand_experiments plain_tokens keep_paths [ablative_template])))
   = [True, True, True, True]"
  by code_simp

section \<open>Missing required fields\<close>

lemma set_defaults_missing:
  assumes "(\<not> has_key t KEY_NAME \<and> \<not> has_key t KEY_i_EXP_NAME)
         \<or> (\<not> has_key t KEY_PATH \<and> \<not> has_key t KEY_i_BASIC_PATH)"
  shows "\<exists>k. set_defaults t = Inl (KeyError k)"
  using assms
  by (auto simp: set_defaults_def has_key_def getitem_def map_of_setitem KEY_defs
      split: option.splits)

lemma expand_worklist_fails:
  "t \<in> set ts \<Longrightarrow> set_defaults t = Inl e0 \<Longrightarrow> \<exists>w e. expand_worklist conv ts = (w, Inl e)"
proof (induction conv ts rule: expand_worklist.induct)
  case (1 conv)
  then show ?case by simp
next
  case (2 conv t' rest)
  show ?case
  proof (cases "set_defaults t'")
    case (Inl e)
    then show ?thesis by simp
  next
    case (Inr c)
    with "2.prems" have tr: "t \<in> set rest" by auto
    show ?thesis
    proof (cases "both_directives c")
      case True
      obtain w1 r1 where pc: "params_combine conv c (Some KEY_LIST) (Some Zip) = (w1, r1)"
        by (cases "params_combine conv c (Some KEY_LIST) (Some Zip)")
      show ?thesis
      proof (cases r1)
        case (Inl e)
        with Inr True pc show ?thesis by simp
      next
        case new: (Inr new)
        from tr have "t \<in> set (rest @ new)" by simp
        from "2.IH"(1) [OF Inr True pc [symmetric] new this "2.prems"(2)]
        obtain w2 e where "expand_worklist conv (rest @ new) = (w2, Inl e)" by blast
        with Inr True pc new show ?thesis by simp
      qed
    next
      case False
      obtain w1 r1 where s: "expand_single conv c = (w1, r1)"
        by (cases "expand_single conv c")
      show ?thesis
      proof (cases r1)
        case (Inl e)
        with Inr False s show ?thesis by simp
      next
        case ex: (Inr expansion)
        from "2.IH"(2) [OF Inr False s [symmetric] ex tr "2.prems"(2)]
        obtain w2 e where "expand_worklist conv rest = (w2, Inl e)" by blast
        with Inr False s ex show ?thesis by simp
      qed
    qed
  qed
qed

lemma mapM_result_fails:
  "x \<in> set xs \<Longrightarrow> f x = Inl e0 \<Longrightarrow> \<exists>e. mapM_result f xs = Inl e"
  by (induction xs) (auto split: sum.splits)

text \<open>
  C8, as amended. Where a template of the input lacks \<open>name\<close> (and carries no
  \<open>_experiment_name\<close>) or \<open>path\<close> (and carries no \<open>_base_path\<close>), the expansion fails and
  so does the top-level call: no output. A missing \<open>repetitions\<close> is not looked at by the
  expansion; it makes the unrolling fail, and with it the top-level call, where a record
  without a repetition index reaches the unrolling.
\<close>

theorem missing_required_field:
  "(t \<in> set ts
      \<and> ((\<not> has_key t KEY_NAME \<and> \<not> has_key t KEY_i_EXP_NAME)
         \<or> (\<not> has_key t KEY_PATH \<and> \<not> has_key t KEY_i_BASIC_PATH))
    \<longrightarrow> (\<exists>w e. expand_experiments conv normalize_paths ts = (w, Inl e)
              \<and> unfold_exps conv normalize_paths ts = (w, Inl e)))
   \<and> (c \<in> set cs \<and> \<not> has_key c KEY_i_REP_IDX \<and> \<not> has_key c KEY_REPS
    \<longrightarrow> (\<exists>e. unroll_exp_reps cs = Inl e))
   \<and> (expand_experiments conv normalize_paths ts = (w, Inr cs)
      \<and> c \<in> set cs \<and> \<not> has_key c KEY_i_REP_IDX \<and> \<not> has_key c KEY_REPS
    \<longrightarrow> (\<exists>e. unfold_exps conv normalize_paths ts = (w, Inl e)))"
proof -
  have a: "\<exists>w e. expand_experiments conv normalize_paths ts = (w, Inl e)
              \<and> unfold_exps conv normalize_paths ts = (w, Inl e)"
    if "t \<in> set ts" and "(\<not> has_key t KEY_NAME \<and> \<not> has_key t KEY_i_EXP_NAME)
         \<or> (\<not> has_key t KEY_PATH \<and> \<not> has_key t KEY_i_BASIC_PATH)"
  proof -
    from set_defaults_missing [OF that(2)] obtain k where "set_defaults t = Inl (KeyError k)"
      by blast
    from expand_worklist_fails [OF that(1) this] obtain w e where
      "expand_worklist conv ts = (w, Inl e)" by blast
    then have "expand_experiments conv normalize_paths ts = (w, Inl e)"
      by (simp add: expand_experiments_def)
    then show ?thesis by (simp add: unfold_exps_def)
  qed
  have b: "\<exists>e. unroll_exp_reps cs = Inl e"
    if "c \<in> set cs" and "\<not> has_key c KEY_i_REP_IDX" and "\<not> has_key c KEY_REPS"
  proof -
    from that(2) that(3) have "unroll_config c = Inl (KeyError KEY_REPS)"
      by (simp add: unroll_config_def getitem_def has_key_def)
    from mapM_result_fails [of c cs unroll_config, OF that(1) this] show ?thesis
      by (auto simp: unroll_exp_reps_def)
  qed
  have "\<exists>e. unfold_exps conv normalize_paths ts = (w, Inl e)"
    if "expand_experiments conv normalize_paths ts = (w, Inr cs)"
      and "c \<in> set cs" and "\<not> has_key c KEY_i_REP_IDX" and "\<not> has_key c KEY_REPS"
    using b [OF that(2) that(3) that(4)] that(1) by (auto simp: unfold_exps_def)
  with a b show ?thesis by blast
qed

text \<open>A template without \<open>path\<close>, one without \<open>repetitions\<close>, and one without
  \<open>repetitions\<close> whose grid has no candidate value.\<close>

definition no_path_template :: config where
  "no_path_template = [(''name'', VStr ''exp''), (''repetitions'', VInt 2)]"

definition no_reps_template :: config where
  "no_reps_template = [(''name'', VStr ''exp''), (''path'', VStr ''/out'')]"

definition no_reps_empty_grid_template :: config where
  "no_reps_empty_grid_template =
     [(''name'', VStr ''exp''), (''path'', VStr ''/out''), (''grid'', VDict [(''a'', VList [])])]"

theorem missing_required_field_witness:
  "\<not> has_key no_path_template KEY_PATH \<and> \<not> has_key no_path_template KEY_i_BASIC_PATH
   \<and> expand_experiments plain_tokens keep_paths [grid_template, no_path_template]
       = ([], Inl (KeyError ''path''))
   \<and> unfold_exps plain_tokens keep_paths [grid_template, no_path_template]
       = ([], Inl (KeyError ''path''))
   \<and> \<not> has_key no_reps_template KEY_i_REP_IDX \<and> \<not> has_key no_reps_template KEY_REPS
   \<and> unroll_exp_reps [no_reps_template] = Inl (KeyError ''repetitions'')
   \<and> unfold_exps plain_tokens keep_paths [no_reps_template] = ([], Inl (KeyError ''repetitions''))"
proof -
  have h1: "no_path_template \<in> set [grid_template, no_path_template]
      \<and> ((\<not> has_key no_path_template KEY_NAME \<and> \<not> has_key no_path_template KEY_i_EXP_NAME)
         \<or> (\<not> has_key no_path_template KEY_PATH \<and> \<not> has_key no_path_template KEY_i_BASIC_PATH))"
    by (simp add: has_key_def no_path_template_def KEY_defs)
  have h0: "\<not> has_key no_path_template KEY_PATH \<and> \<not> has_key no_path_template KEY_i_BASIC_PATH"
    by (simp add: has_key_def no_path_template_def KEY_defs)
  have h2: "no_reps_template \<in> set [no_reps_template]
      \<and> \<not> has_key no_reps_template KEY_i_REP_IDX \<and> \<not> has_key no_reps_template KEY_REPS"
    by (simp add: has_key_def no_reps_template_def KEY_defs)
  have e1: "expand_experiments plain_tokens keep_paths [grid_template, no_path_template]
       = ([], Inl (KeyError ''path''))"
    by code_simp
  have e2: "unfold_exps plain_tokens keep_paths [grid_template, no_path_template]
       = ([], Inl (KeyError ''path''))"
    by code_simp
  have e3: "unroll_exp_reps [no_reps_template] = Inl (KeyError ''repetitions'')"
    by code_simp
  have e4: "unfold_exps plain_tokens keep_paths [no_reps_template] = ([], Inl (KeyError ''repetitions''))"
    by code_simp
  from missing_required_field
    [of no_path_template "[grid_template, no_path_template]" plain_tokens keep_paths
        no_reps_template "[no_reps_template]" "[]"] h1 h2
  have "(\<exists>w e. expand_experiments plain_tokens keep_paths [grid_template, no_path_template] = (w, Inl e)
              \<and> unfold_exps plain_tokens keep_paths [grid_template, no_path_template] = (w, Inl e))
     \<and> (\<exists>e. unroll_exp_reps [no_reps_template] = Inl e)"
    by blast
  with h0 h2 e1 e2 e3 e4 show ?thesis by simp
qed

text \<open>
  C8 as stated fails for \<open>repetitions\<close>: the expansion of a template without it returns
  its record, and the top-level call returns too when no record reaches the unrolling.
\<close>

theorem missing_required_field_counterexample:
  "\<not> has_key no_reps_template KEY_REPS
   \<and> expand_experiments plain_tokens keep_paths [no_reps_template]
       = ([], Inr [[(''name'', VStr ''exp''), (''path'', VStr ''/out''),
                    (''_base_path'', VStr ''/out''), (''_experiment_name'', VStr ''exp''),
                    (''_nested_dir'', VStr [])]])
   \<and> \<not> has_key no_reps_empty_grid_template KEY_REPS
   \<and> unfold_exps plain_tokens keep_paths [no_reps_empty_grid_template] = ([], Inr [])"
  by code_simp

section \<open>The store\<close>

text \<open>
  Whether the caller's objects are changed cannot be read off functions on values: there
  a copy and its original are the same thing. The store model keeps the identity of the
  objects. A list or a dict is a node that carries its address, an atom carries none
  (strings, integers and \<open>None\<close> are immutable), and the same address in two places is the
  same object. Configurations are trees (parsed YAML), so an object is written down
  together with what it holds.
\<close>

type_synonym addr = nat

datatype tval =
    TNone
  | TInt int
  | TStr string
  | TList addr "tval list"
  | TDict addr "(string \<times> tval) list"

text \<open>A dict object, and a list object whose elements are dict objects.\<close>

type_synonym tdict = "addr \<times> (string \<times> tval) list"
type_synonym tlist = "addr \<times> tdict list"

definition dict_val :: "tdict \<Rightarrow> tval" where
  "dict_val d = TDict (fst d) (snd d)"

definition list_val :: "tlist \<Rightarrow> tval" where
  "list_val l = TList (fst l) (map dict_val (snd l))"

text \<open>Forgetting the addresses gives the plain data.\<close>

fun erase :: "tval \<Rightarrow> pyval"
  and erase_list :: "tval list \<Rightarrow> pyval list"
  and erase_items :: "(string \<times> tval) list \<Rightarrow> (string \<times> pyval) list" where
  "erase TNone = VNone"
| "erase (TInt i) = VInt i"
| "erase (TStr s) = VStr s"
| "erase (TList a xs) = VList (erase_list xs)"
| "erase (TDict a kvs) = VDict (erase_items kvs)"
| "erase_list [] = []"
| "erase_list (x # xs) = erase x # erase_list xs"
| "erase_items [] = []"
| "erase_items ((k, v) # kvs) = (k, erase v) # erase_items kvs"

text \<open>A write to the object at address \<open>a\<close> changes it wherever it occurs: \<open>new\<close> is the
  object after the write.\<close>

fun write_obj :: "addr \<Rightarrow> tval \<Rightarrow> tval \<Rightarrow> tval"
  and write_list :: "addr \<Rightarrow> tval \<Rightarrow> tval list \<Rightarrow> tval list"
  and write_items :: "addr \<Rightarrow> tval \<Rightarrow> (string \<times> tval) list \<Rightarrow> (string \<times> tval) list" where
  "write_obj a new TNone = TNone"
| "write_obj a new (TInt i) = TInt i"
| "write_obj a new (TStr s) = TStr s"
| "write_obj a new (TList b xs) = (if b = a then new else TList b (write_list a new xs))"
| "write_obj a new (TDict b kvs) = (if b = a then new else TDict b (write_items a new kvs))"
| "write_list a new [] = []"
| "write_list a new (x # xs) = write_obj a new x # write_list a new xs"
| "write_items a new [] = []"
| "write_items a new ((k, v) # kvs) = (k, write_obj a new v) # write_items a new kvs"

text \<open>Every address of a value satisfies \<open>P\<close>.\<close>

fun all_addrs :: "(addr \<Rightarrow> bool) \<Rightarrow> tval \<Rightarrow> bool"
  and all_addrs_list :: "(addr \<Rightarrow> bool) \<Rightarrow> tval list \<Rightarrow> bool"
  and all_addrs_items :: "(addr \<Rightarrow> bool) \<Rightarrow> (string \<times> tval) list \<Rightarrow> bool" where
  "all_addrs P TNone = True"
| "all_addrs P (TInt i) = True"
| "all_addrs P (TStr s) = True"
| "all_addrs P (TList a xs) = (P a \<and> all_addrs_list P xs)"
| "all_addrs P (TDict a kvs) = (P a \<and> all_addrs_items P kvs)"
| "all_addrs_list P [] = True"
| "all_addrs_list P (x # xs) = (all_addrs P x \<and> all_addrs_list P xs)"
| "all_addrs_items P [] = True"
| "all_addrs_items P ((k, v) # kvs) = (all_addrs P v \<and> all_addrs_items P kvs)"

definition all_below :: "addr \<Rightarrow> tval \<Rightarrow> bool" where
  "all_below n v = all_addrs (\<lambda>a. a < n) v"

definition all_above :: "addr \<Rightarrow> tval \<Rightarrow> bool" where
  "all_above n v = all_addrs (\<lambda>a. n \<le> a) v"

text \<open>
  The state of a run: the next address the allocator hands out, the objects the caller
  holds (the input among them), and the warnings logged so far.
\<close>

record state =
  nxt :: addr
  world :: "tval list"
  logged :: "warning list"

text \<open>A computation changes the state and returns or raises; the state it leaves is
  there in both cases.\<close>

type_synonym 'a prog = "state \<Rightarrow> state \<times> (error + 'a)"

definition ret :: "'a \<Rightarrow> 'a prog" where
  "ret x s = (s, Inr x)"

definition raise_err :: "error \<Rightarrow> 'a prog" where
  "raise_err e s = (s, Inl e)"

definition lift :: "error + 'a \<Rightarrow> 'a prog" where
  "lift r s = (s, r)"

definition and_then :: "'a prog \<Rightarrow> ('a \<Rightarrow> 'b prog) \<Rightarrow> 'b prog" where
  "and_then m f s = (case m s of (s', Inl e) \<Rightarrow> (s', Inl e) | (s', Inr x) \<Rightarrow> f x s')"

fun mapM_prog :: "('a \<Rightarrow> 'b prog) \<Rightarrow> 'a list \<Rightarrow> 'b list prog" where
  "mapM_prog f [] = ret []"
| "mapM_prog f (x # xs) = and_then (f x) (\<lambda>y. and_then (mapM_prog f xs) (\<lambda>ys. ret (y # ys)))"

definition fresh :: "addr prog" where
  "fresh s = (s\<lparr>nxt := Suc (nxt s)\<rparr>, Inr (nxt s))"

definition warn :: "warning \<Rightarrow> unit prog" where
  "warn w s = (s\<lparr>logged := logged s @ [w]\<rparr>, Inr ())"

text \<open>The object at the address of \<open>d\<close> now holds the items of \<open>d\<close>; likewise for a list.\<close>

definition store_dict :: "tdict \<Rightarrow> state \<Rightarrow> state" where
  "store_dict d s = s\<lparr>world := map (write_obj (fst d) (dict_val d)) (world s)\<rparr>"

definition store_list :: "tlist \<Rightarrow> state \<Rightarrow> state" where
  "store_list l s = s\<lparr>world := map (write_obj (fst l) (list_val l)) (world s)\<rparr>"

subsection \<open>Dict operations on objects\<close>

definition t_has_key :: "tdict \<Rightarrow> string \<Rightarrow> bool" where
  "t_has_key d k = (map_of (snd d) k \<noteq> None)"

definition t_getitem :: "tdict \<Rightarrow> string \<Rightarrow> tval prog" where
  "t_getitem d k = (case map_of (snd d) k of None \<Rightarrow> raise_err (KeyError k) | Some v \<Rightarrow> ret v)"

text \<open>\<open>d[k] = v\<close> and \<open>del d[k]\<close> write to the object \<open>d\<close>; the result is \<open>d\<close> as the name
  that was written through sees it.\<close>

definition t_setitem :: "string \<Rightarrow> tval \<Rightarrow> tdict \<Rightarrow> tdict prog" where
  "t_setitem k v d s =
     (let d' = (fst d, AList.update k v (snd d)) in (store_dict d' s, Inr d'))"

definition t_delitem :: "string \<Rightarrow> tdict \<Rightarrow> tdict prog" where
  "t_delitem k d s =
     (if t_has_key d k
      then (let d' = (fst d, AList.delete k (snd d)) in (store_dict d' s, Inr d'))
      else (s, Inl (KeyError k)))"

definition as_str :: "tval \<Rightarrow> string prog" where
  "as_str v = (case v of TStr x \<Rightarrow> ret x | _ \<Rightarrow> raise_err TypeError)"

definition as_int :: "tval \<Rightarrow> int prog" where
  "as_int v = (case v of TInt i \<Rightarrow> ret i | _ \<Rightarrow> raise_err TypeError)"

definition as_dict :: "tval \<Rightarrow> tdict prog" where
  "as_dict v = (case v of TDict a kvs \<Rightarrow> ret (a, kvs) | _ \<Rightarrow> raise_err TypeError)"

subsection \<open>Deep copy\<close>

text \<open>
  \<open>deepcopy\<close> builds a new object for every list and dict it meets, from the next free
  address on, and returns atoms as they are. It writes to no object that was there
  before. (Python's copy keeps an object that occurs twice in the original shared in the
  copy; here every occurrence gets its own copy.)
\<close>

fun deepcopy :: "addr \<Rightarrow> tval \<Rightarrow> addr \<times> tval"
  and deepcopy_list :: "addr \<Rightarrow> tval list \<Rightarrow> addr \<times> tval list"
  and deepcopy_items :: "addr \<Rightarrow> (string \<times> tval) list \<Rightarrow> addr \<times> (string \<times> tval) list" where
  "deepcopy n TNone = (n, TNone)"
| "deepcopy n (TInt i) = (n, TInt i)"
| "deepcopy n (TStr s) = (n, TStr s)"
| "deepcopy n (TList a xs) = (case deepcopy_list (Suc n) xs of (n', xs') \<Rightarrow> (n', TList n xs'))"
| "deepcopy n (TDict a kvs) = (case deepcopy_items (Suc n) kvs of (n', kvs') \<Rightarrow> (n', TDict n kvs'))"
| "deepcopy_list n [] = (n, [])"
| "deepcopy_list n (x # xs) =
     (case deepcopy n x of (n1, x') \<Rightarrow>
        (case deepcopy_list n1 xs of (n2, xs') \<Rightarrow> (n2, x' # xs')))"
| "deepcopy_items n [] = (n, [])"
| "deepcopy_items n ((k, v) # kvs) =
     (case deepcopy n v of (n1, v') \<Rightarrow>
        (case deepcopy_items n1 kvs of (n2, kvs') \<Rightarrow> (n2, (k, v') # kvs')))"

definition deepcopy_dict :: "tdict \<Rightarrow> tdict prog" where
  "deepcopy_dict d s =
     (case deepcopy_items (Suc (nxt s)) (snd d) of
        (n', kvs') \<Rightarrow> (s\<lparr>nxt := n'\<rparr>, Inr (nxt s, kvs')))"

fun deepcopy_dicts :: "addr \<Rightarrow> tdict list \<Rightarrow> addr \<times> tdict list" where
  "deepcopy_dicts n [] = (n, [])"
| "deepcopy_dicts n (d # ds) =
     (case deepcopy_items (Suc n) (snd d) of (n1, kvs') \<Rightarrow>
        (case deepcopy_dicts n1 ds of (n2, ds') \<Rightarrow> (n2, (n, kvs') # ds')))"

definition deepcopy_templates :: "tlist \<Rightarrow> tlist prog" where
  "deepcopy_templates l s =
     (case deepcopy_dicts (Suc (nxt s)) (snd l) of
        (n', ds') \<Rightarrow> (s\<lparr>nxt := n'\<rparr>, Inr (nxt s, ds')))"

subsection \<open>The external helpers on objects\<close>

text \<open>
  Modelled from the spec: the flattener only reads; the candidates it returns are the
  objects in the directive, not copies.
\<close>

fun t_flatten_items :: "(string \<times> tval) list \<Rightarrow> error + (string list \<times> tval list) list" where
  "t_flatten_items [] = Inr []"
| "t_flatten_items ((k, v) # kvs) =
     (case v of
        TDict a sub \<Rightarrow>
          (case t_flatten_items sub of
             Inl e \<Rightarrow> Inl e
           | Inr fs \<Rightarrow>
               (case t_flatten_items kvs of
                  Inl e \<Rightarrow> Inl e
                | Inr gs \<Rightarrow> Inr (map (\<lambda>(p, xs). (k # p, xs)) fs @ gs)))
      | TList a xs \<Rightarrow>
          (case t_flatten_items kvs of
             Inl e \<Rightarrow> Inl e
           | Inr gs \<Rightarrow> Inr (([k], xs) # gs))
      | _ \<Rightarrow> Inl TypeError)"

definition t_flatten_dict_to_tuple_keys :: "tval \<Rightarrow> error + (string list \<times> tval list) list" where
  "t_flatten_dict_to_tuple_keys d =
     (case d of TDict a kvs \<Rightarrow> t_flatten_items kvs | _ \<Rightarrow> Inl TypeError)"

text \<open>
  Modelled from the spec: the deep insertion writes to the dict it is given or to a dict
  below it, and makes a new dict for a level that is missing. The result is the dict it
  was given, as it is after the writes.
\<close>

fun t_insert_deep_dictionary :: "tdict \<Rightarrow> string list \<Rightarrow> tval \<Rightarrow> tdict prog" where
  "t_insert_deep_dictionary d [] v = raise_err IndexError"
| "t_insert_deep_dictionary d [k] v = t_setitem k v d"
| "t_insert_deep_dictionary d (k # k' # ks) v =
     (case map_of (snd d) k of
        None \<Rightarrow>
          and_then fresh (\<lambda>a.
          and_then (t_setitem k (TDict a []) d) (\<lambda>d1.
          and_then (t_insert_deep_dictionary (a, []) (k' # ks) v) (\<lambda>sub'.
          ret (fst d1, AList.update k (dict_val sub') (snd d1)))))
      | Some (TDict a sub) \<Rightarrow>
          and_then (t_insert_deep_dictionary (a, sub) (k' # ks) v) (\<lambda>sub'.
          ret (fst d, AList.update k (dict_val sub') (snd d)))
      | Some _ \<Rightarrow> raise_err TypeError)"

subsection \<open>The engine on objects\<close>

text \<open>
  The functions of the engine once more, line by line as above, now on objects: each
  carries the name of its source function with the prefix \<open>t_\<close>, every \<open>deepcopy\<close> of the
  source is a \<open>deepcopy_dict\<close> or a \<open>deepcopy_templates\<close>, and every assignment to a key
  and every \<open>del\<close> is a write to the object it goes through. The lists that a call makes
  for its own results (\<open>combined_configs\<close>, \<open>expansion\<close>, \<open>expanded_config_list\<close>,
  \<open>unrolled_exps\<close>) are plain lists.
\<close>

definition t_extend_config_name :: "conv \<Rightarrow> tdict \<Rightarrow> string list \<Rightarrow> tval list \<Rightarrow> tdict prog" where
  "t_extend_config_name conv config param_names vals =
     (let converted_name = conv param_names (erase_list vals) in
      and_then (t_getitem config KEY_i_EXP_NAME) (\<lambda>v.
      and_then (as_str v) (\<lambda>n.
      and_then (t_setitem KEY_i_EXP_NAME
                  (TStr (n @ (if str_contains n ''__'' then ''_'' else ''__'') @ converted_name))
                  config) (\<lambda>config1.
      and_then (t_getitem config1 KEY_NAME) (\<lambda>nm.
      t_setitem KEY_i_NEST_DIR nm config1)))))"

text \<open>\<open>util.insert_deep_dictionary(_config[KEY.PARAMS], t, v)\<close>: the writes go to the
  \<open>params\<close> object and below; \<open>_config\<close> itself is not written.\<close>

definition t_insert_param :: "tdict \<Rightarrow> string list \<times> tval \<Rightarrow> tdict prog" where
  "t_insert_param config tv =
     and_then (t_getitem config KEY_PARAMS) (\<lambda>p.
     and_then (as_dict p) (\<lambda>pd.
     and_then (t_insert_deep_dictionary pd (fst tv) (snd tv)) (\<lambda>pd'.
     ret (fst config, AList.update KEY_PARAMS (dict_val pd') (snd config)))))"

fun t_insert_params :: "tdict \<Rightarrow> (string list \<times> tval) list \<Rightarrow> tdict prog" where
  "t_insert_params config [] = ret config"
| "t_insert_params config (tv # tvs) =
     and_then (t_insert_param config tv) (\<lambda>config'. t_insert_params config' tvs)"

definition t_ensure_params :: "tdict \<Rightarrow> tdict prog" where
  "t_ensure_params config =
     (if \<not> t_has_key config KEY_PARAMS
      then and_then fresh (\<lambda>a. t_setitem KEY_PARAMS (TDict a []) config)
      else ret config)"

text \<open>The body of the loop of \<open>params_combine\<close>: the copy comes first, every write after
  it goes through \<open>_config\<close>.\<close>

definition t_combine_one ::
  "conv \<Rightarrow> tdict \<Rightarrow> string \<Rightarrow> string list list \<Rightarrow> string list \<Rightarrow> tval list \<Rightarrow> tdict prog" where
  "t_combine_one conv config key paths param_names vals =
     and_then (deepcopy_dict config) (\<lambda>c0.
     and_then (t_delitem key c0) (\<lambda>c1.
     and_then (t_ensure_params c1) (\<lambda>c2.
     and_then (t_insert_params c2 (zip paths vals)) (\<lambda>c3.
     t_extend_config_name conv c3 param_names vals))))"

definition t_params_combine ::
  "conv \<Rightarrow> tdict \<Rightarrow> string option \<Rightarrow> iter_func option \<Rightarrow> tdict list prog" where
  "t_params_combine conv config key iter_func =
     (case iter_func of
        None \<Rightarrow> ret [config]
      | Some f \<Rightarrow>
          (case key of
             None \<Rightarrow> raise_err (KeyError ''None'')
           | Some k \<Rightarrow>
               and_then (t_getitem config k) (\<lambda>directive.
               and_then (lift (t_flatten_dict_to_tuple_keys directive)) (\<lambda>tuple_dict.
               and_then
                 (if k = KEY_LIST \<and> length (remdups (map (length \<circ> snd) tuple_dict)) \<noteq> 1
                  then and_then (t_getitem config KEY_NAME) (\<lambda>nm.
                         warn (UnequalListLengths (erase nm)))
                  else ret ()) (\<lambda>_.
               mapM_prog
                 (t_combine_one conv config k (map fst tuple_dict)
                    (map (join_dot \<circ> fst) tuple_dict))
                 (apply_iter f (map snd tuple_dict)))))))"

definition t_ablative_one :: "conv \<Rightarrow> tdict \<Rightarrow> string list \<Rightarrow> tval \<Rightarrow> tdict prog" where
  "t_ablative_one conv config path val =
     and_then (deepcopy_dict config) (\<lambda>c0.
     and_then (t_ensure_params c0) (\<lambda>c1.
     and_then (t_insert_param c1 (path, val)) (\<lambda>c2.
     t_extend_config_name conv c2 (map (\<lambda>ch. [ch]) (join_dot path)) [val])))"

definition t_ablative_config :: "conv \<Rightarrow> tdict \<Rightarrow> tdict list prog" where
  "t_ablative_config conv config =
     and_then (t_getitem config KEY_ABLATIVE) (\<lambda>directive.
     and_then (lift (t_flatten_dict_to_tuple_keys directive)) (\<lambda>tuple_dict.
     mapM_prog (\<lambda>(path, val). t_ablative_one conv config path val)
       (concat (map (\<lambda>(path, vs). map (Pair path) vs) tuple_dict))))"

definition t_ablative_expand :: "conv \<Rightarrow> tdict list \<Rightarrow> tdict list prog" where
  "t_ablative_expand conv conf_list =
     and_then (mapM_prog (t_ablative_config conv) conf_list) (\<lambda>xss. ret (concat xss))"

text \<open>Lines 44 to 53: the defaults are written to \<open>config\<close>, an element of
  \<open>experiment_configs\<close>.\<close>

definition t_set_defaults :: "tdict \<Rightarrow> tdict prog" where
  "t_set_defaults config =
     and_then
       (if \<not> t_has_key config KEY_i_BASIC_PATH
        then and_then (t_getitem config KEY_PATH) (\<lambda>p. t_setitem KEY_i_BASIC_PATH p config)
        else ret config) (\<lambda>c1.
     and_then
       (if \<not> t_has_key c1 KEY_i_EXP_NAME
        then and_then (t_getitem c1 KEY_NAME) (\<lambda>n. t_setitem KEY_i_EXP_NAME n c1)
        else ret c1) (\<lambda>c2.
     if \<not> t_has_key c2 KEY_i_NEST_DIR
     then t_setitem KEY_i_NEST_DIR (TStr []) c2
     else ret c2))"

definition t_select_iter :: "tdict \<Rightarrow> string option \<times> iter_func option" where
  "t_select_iter config =
     (let r0 = (None, None);
          r1 = (if t_has_key config KEY_GRID then (Some KEY_GRID, Some Product) else r0)
      in if t_has_key config KEY_LIST then (Some KEY_LIST, Some Zip) else r1)"

definition t_expand_single :: "conv \<Rightarrow> tdict \<Rightarrow> tdict list prog" where
  "t_expand_single conv config =
     and_then (t_params_combine conv config (fst (t_select_iter config))
                 (snd (t_select_iter config))) (\<lambda>expansion.
     if t_has_key config KEY_ABLATIVE
     then and_then (t_ablative_expand conv expansion) (\<lambda>more. ret (expansion @ more))
     else ret expansion)"

definition t_both_directives :: "tdict \<Rightarrow> bool" where
  "t_both_directives c = (t_has_key c KEY_GRID \<and> t_has_key c KEY_LIST)"

section \<open>Reasoning about runs\<close>

text \<open>\<open>triple I m Q\<close>: run from a state where \<open>I\<close> holds, \<open>m\<close> leaves a state where \<open>I\<close> holds,
  whether it returns or raises, and what it returns satisfies \<open>Q\<close>.\<close>

definition triple :: "(state \<Rightarrow> bool) \<Rightarrow> 'a prog \<Rightarrow> ('a \<Rightarrow> bool) \<Rightarrow> bool" where
  "triple I m Q =
     (\<forall>s. I s \<longrightarrow> (case m s of (s', r) \<Rightarrow> I s' \<and> (case r of Inl e \<Rightarrow> True | Inr x \<Rightarrow> Q x)))"

lemma tripleI:
  "(\<And>s s' r. I s \<Longrightarrow> m s = (s', r) \<Longrightarrow> I s' \<and> (\<forall>x. r = Inr x \<longrightarrow> Q x)) \<Longrightarrow> triple I m Q"
  by (auto simp: triple_def split: prod.splits sum.splits)

lemma tripleD:
  "triple I m Q \<Longrightarrow> I s \<Longrightarrow> m s = (s', r) \<Longrightarrow> I s' \<and> (\<forall>x. r = Inr x \<longrightarrow> Q x)"
  by (auto simp: triple_def split: prod.splits sum.splits)

lemma triple_ret: "Q x \<Longrightarrow> triple I (ret x) Q"
  by (simp add: triple_def ret_def)

lemma triple_raise: "triple I (raise_err e) Q"
  by (simp add: triple_def raise_err_def)

lemma triple_lift: "(\<And>x. r = Inr x \<Longrightarrow> Q x) \<Longrightarrow> triple I (lift r) Q"
  by (cases r) (simp_all add: triple_def lift_def)

lemma triple_bind:
  assumes "triple I m P" and "\<And>x. P x \<Longrightarrow> triple I (f x) Q"
  shows "triple I (and_then m f) Q"
proof (rule tripleI)
  fix s s' r
  assume I: "I s" and run: "and_then m f s = (s', r)"
  obtain s1 r1 where m: "m s = (s1, r1)" by (cases "m s")
  from tripleD [OF assms(1) I m] have I1: "I s1" and P: "\<forall>x. r1 = Inr x \<longrightarrow> P x" by simp_all
  show "I s' \<and> (\<forall>x. r = Inr x \<longrightarrow> Q x)"
  proof (cases r1)
    case (Inl e)
    with run m I1 show ?thesis by (auto simp: and_then_def)
  next
    case (Inr x)
    with run m have "f x s1 = (s', r)" by (simp add: and_then_def)
    from tripleD [OF assms(2) I1 this] P Inr show ?thesis by simp
  qed
qed

lemma triple_if:
  "(c \<Longrightarrow> triple I m Q) \<Longrightarrow> (\<not> c \<Longrightarrow> triple I m' Q) \<Longrightarrow> triple I (if c then m else m') Q"
  by simp

lemma triple_weaken:
  "triple I m P \<Longrightarrow> (\<And>x. P x \<Longrightarrow> Q x) \<Longrightarrow> triple I m Q"
  by (auto simp: triple_def split: prod.splits sum.splits)

lemma triple_mapM:
  "(\<And>x. x \<in> set xs \<Longrightarrow> triple I (f x) Q) \<Longrightarrow> triple I (mapM_prog f xs) (list_all Q)"
proof (induction xs)
  case Nil
  show ?case by (simp add: triple_ret)
next
  case (Cons x xs)
  have "triple I (f x) Q" by (rule Cons.prems) simp
  moreover have "triple I (mapM_prog f xs) (list_all Q)"
    by (rule Cons.IH) (simp add: Cons.prems)
  ultimately show ?case
    by (auto intro!: triple_bind [where P = Q] triple_bind [where P = "list_all Q"] triple_ret)
qed

subsection \<open>Which keys a step on an object writes\<close>

abbreviation anywhere :: "state \<Rightarrow> bool" where
  "anywhere \<equiv> \<lambda>s. True"

lemma t_setitem_keys:
  "triple anywhere (t_setitem k v d) (\<lambda>d'. \<forall>k0. t_has_key d' k0 = (k0 = k \<or> t_has_key d k0))"
  by (auto simp: triple_def t_setitem_def t_has_key_def Let_def update_conv')

lemma t_delitem_keys:
  "triple anywhere (t_delitem k d) (\<lambda>d'. \<forall>k0. t_has_key d' k0 = (k0 \<noteq> k \<and> t_has_key d k0))"
  by (auto simp: triple_def t_delitem_def t_has_key_def Let_def delete_conv')

lemma deepcopy_items_fst:
  "deepcopy_items n kvs = (n', kvs') \<Longrightarrow> map fst kvs' = map fst kvs"
proof (induction kvs arbitrary: n n' kvs')
  case Nil
  then show ?case by simp
next
  case (Cons kv kvs)
  obtain k v where kv: "kv = (k, v)" by (cases kv)
  obtain n1 v' where v: "deepcopy n v = (n1, v')" by (cases "deepcopy n v")
  obtain n2 rest where r: "deepcopy_items n1 kvs = (n2, rest)" by (cases "deepcopy_items n1 kvs")
  from Cons.prems kv v r have "kvs' = (k, v') # rest" by simp
  with Cons.IH [OF r] kv show ?case by simp
qed

lemma deepcopy_dict_keys:
  "triple anywhere (deepcopy_dict d) (\<lambda>d'. \<forall>k0. t_has_key d' k0 = t_has_key d k0)"
proof -
  have "(map_of kvs' k0 \<noteq> None) = (map_of kvs k0 \<noteq> None)"
    if "deepcopy_items n kvs = (n', kvs')" for n n' k0 and kvs kvs' :: "(string \<times> tval) list"
    using deepcopy_items_fst [OF that] by (metis map_of_eq_None_iff set_map)
  then show ?thesis
    unfolding triple_def deepcopy_dict_def t_has_key_def
    by (auto split: prod.splits simp del: not_None_eq)
qed

lemma t_set_defaults_keys:
  assumes "k0 \<notin> {KEY_i_BASIC_PATH, KEY_i_EXP_NAME, KEY_i_NEST_DIR}"
  shows "triple anywhere (t_set_defaults config) (\<lambda>c. t_has_key c k0 = t_has_key config k0)"
  unfolding t_set_defaults_def
  apply (rule triple_bind [where P = "\<lambda>c. t_has_key c k0 = t_has_key config k0"])
   apply (rule triple_if)
    apply (rule triple_bind [where P = "\<lambda>_. True"])
     apply (simp add: t_getitem_def triple_raise triple_ret split: option.splits)
    apply (rule triple_weaken [OF t_setitem_keys])
  using assms apply simp
   apply (simp add: triple_ret)
  apply (rule triple_bind [where P = "\<lambda>c. t_has_key c k0 = t_has_key config k0"])
   apply (rule triple_if)
    apply (rule triple_bind [where P = "\<lambda>_. True"])
     apply (simp add: t_getitem_def triple_raise triple_ret split: option.splits)
    apply (rule triple_weaken [OF t_setitem_keys])
  using assms apply simp
   apply (simp add: triple_ret)
  apply (rule triple_if)
   apply (rule triple_weaken [OF t_setitem_keys])
  using assms apply simp
  apply (simp add: triple_ret)
  done

lemma triple_any: "triple anywhere m (\<lambda>_. True)"
  by (simp add: triple_def split: prod.splits sum.splits)

lemma t_getitem_triple: "triple I (t_getitem d k) (\<lambda>v. map_of (snd d) k = Some v)"
  by (simp add: t_getitem_def triple_raise triple_ret split: option.splits)

lemma as_str_triple: "triple I (as_str v) (\<lambda>x. v = TStr x)"
  by (simp add: as_str_def triple_raise triple_ret split: tval.splits)

lemma as_int_triple: "triple I (as_int v) (\<lambda>x. v = TInt x)"
  by (simp add: as_int_def triple_raise triple_ret split: tval.splits)

lemma as_dict_triple: "triple I (as_dict v) (\<lambda>d. v = dict_val d)"
  by (simp add: as_dict_def dict_val_def triple_raise triple_ret split: tval.splits)

lemma t_has_key_update:
  "t_has_key (a, AList.update k v kvs) k0 = (k0 = k \<or> t_has_key (a, kvs) k0)"
  by (auto simp: t_has_key_def update_conv')

lemma t_ensure_params_keys:
  assumes "k0 \<noteq> KEY_PARAMS"
  shows "triple anywhere (t_ensure_params config) (\<lambda>c. t_has_key c k0 = t_has_key config k0)"
  unfolding t_ensure_params_def
  apply (rule triple_if)
   apply (rule triple_bind [OF triple_any])
   apply (rule triple_weaken [OF t_setitem_keys])
  using assms apply simp
  apply (simp add: triple_ret)
  done

lemma t_insert_param_keys:
  assumes "k0 \<noteq> KEY_PARAMS"
  shows "triple anywhere (t_insert_param config tv) (\<lambda>c. t_has_key c k0 = t_has_key config k0)"
  unfolding t_insert_param_def
  apply (rule triple_bind [OF triple_any])
  apply (rule triple_bind [OF triple_any])
  apply (rule triple_bind [OF triple_any])
  apply (rule triple_ret)
  using assms apply (cases config) apply (simp add: t_has_key_update)
  done

lemma t_insert_params_keys:
  assumes "k0 \<noteq> KEY_PARAMS"
  shows "triple anywhere (t_insert_params config tvs) (\<lambda>c. t_has_key c k0 = t_has_key config k0)"
proof (induction tvs arbitrary: config)
  case Nil
  show ?case by (simp add: triple_ret)
next
  case (Cons tv tvs)
  show ?case
    apply simp
    apply (rule triple_bind [OF t_insert_param_keys [OF assms]])
    apply (rule triple_weaken [OF Cons.IH])
    apply simp
    done
qed

lemma t_extend_config_name_keys:
  assumes "k0 \<notin> {KEY_i_EXP_NAME, KEY_i_NEST_DIR}"
  shows "triple anywhere (t_extend_config_name conv config pn vals)
           (\<lambda>c. t_has_key c k0 = t_has_key config k0)"
  unfolding t_extend_config_name_def Let_def
  apply (rule triple_bind [OF triple_any])
  apply (rule triple_bind [OF triple_any])
  apply (rule triple_bind [where P = "\<lambda>c. t_has_key c k0 = t_has_key config k0"])
   apply (rule triple_weaken [OF t_setitem_keys])
  using assms apply simp
  apply (rule triple_bind [OF triple_any])
  apply (rule triple_weaken [OF t_setitem_keys])
  using assms apply simp
  done

lemma t_combine_one_keys:
  assumes "key \<notin> {KEY_PARAMS, KEY_i_EXP_NAME, KEY_i_NEST_DIR}"
  shows "triple anywhere (t_combine_one conv config key paths pn vals) (\<lambda>c. \<not> t_has_key c key)"
  unfolding t_combine_one_def
  apply (rule triple_bind [OF triple_any])
  apply (rule triple_bind [where P = "\<lambda>c. \<not> t_has_key c key"])
   apply (rule triple_weaken [OF t_delitem_keys])
   apply simp
  apply (rule triple_bind [where P = "\<lambda>c. \<not> t_has_key c key"])
   apply (rule triple_weaken [OF t_ensure_params_keys [of key]])
  using assms apply simp
   apply simp
  apply (rule triple_bind [where P = "\<lambda>c. \<not> t_has_key c key"])
   apply (rule triple_weaken [OF t_insert_params_keys [of key]])
  using assms apply simp
   apply simp
  apply (rule triple_weaken [OF t_extend_config_name_keys [of key]])
  using assms apply simp
  apply simp
  done

lemma t_params_combine_keys:
  assumes "key \<notin> {KEY_PARAMS, KEY_i_EXP_NAME, KEY_i_NEST_DIR}"
  shows "triple anywhere (t_params_combine conv config (Some key) (Some f))
           (list_all (\<lambda>c. \<not> t_has_key c key))"
  unfolding t_params_combine_def
  apply simp
  apply (rule triple_bind [OF triple_any])
  apply (rule triple_bind [OF triple_any])
  apply (rule triple_bind [OF triple_any])
  apply (rule triple_mapM)
  apply (rule t_combine_one_keys [OF assms])
  done

section \<open>The expansion driver on objects\<close>

text \<open>
  \<open>experiment_configs\<close> is the list object the loop runs over: \<open>seen\<close> are its elements
  behind the loop, \<open>config0 # rest\<close> those at and ahead of it. The \<open>+=\<close> of the source
  writes to that list object; the records of \<open>expanded_config_list\<close>, a list made in the
  call, come back as the result.
\<close>

function t_expand_worklist ::
  "conv \<Rightarrow> addr \<Rightarrow> tdict list \<Rightarrow> tdict list \<Rightarrow> tdict list prog" where
  "t_expand_worklist conv la seen [] s = (s, Inr [])"
| "t_expand_worklist conv la seen (config0 # rest) s =
     (case t_set_defaults config0 s of
        (s1, Inl e) \<Rightarrow> (s1, Inl e)
      | (s1, Inr config) \<Rightarrow>
          (if t_both_directives config
           then (case t_params_combine conv config (Some KEY_LIST) (Some Zip) s1 of
                   (s2, Inl e) \<Rightarrow> (s2, Inl e)
                 | (s2, Inr new) \<Rightarrow>
                     t_expand_worklist conv la (seen @ [config]) (rest @ new)
                       (store_list (la, seen @ config # rest @ new) s2))
           else (case t_expand_single conv config s1 of
                   (s2, Inl e) \<Rightarrow> (s2, Inl e)
                 | (s2, Inr expansion) \<Rightarrow>
                     (case t_expand_worklist conv la (seen @ [config]) rest s2 of
                        (s3, Inl e) \<Rightarrow> (s3, Inl e)
                      | (s3, Inr acc) \<Rightarrow> (s3, Inr (expansion @ acc))))))"
  by pat_completeness auto
termination
proof (relation "measures [\<lambda>(conv, la, seen, ws, s). length (filter t_both_directives ws),
                           \<lambda>(conv, la, seen, ws, s). length ws]")
  show "wf (measures [\<lambda>(conv, la, seen, ws, s). length (filter t_both_directives ws),
                      \<lambda>(conv, la, seen, ws, s). length ws])"
    by simp
next
  fix conv :: conv and la :: addr and seen :: "tdict list" and config0 rest s x s1 r config x2 s2 r2 new
  assume sd: "(s1, r) = t_set_defaults config0 s" "r = Inr config"
    and b: "t_both_directives config"
    and x: "(s2, r2) = t_params_combine conv config (Some KEY_LIST) (Some Zip) s1" "r2 = Inr new"
  from sd have sd': "t_set_defaults config0 s = (s1, Inr config)" by simp
  from x have x': "t_params_combine conv config (Some KEY_LIST) (Some Zip) s1 = (s2, Inr new)"
    by simp
  have "t_has_key config KEY_GRID = t_has_key config0 KEY_GRID"
    using tripleD [OF t_set_defaults_keys [of KEY_GRID config0] _ sd'] by (simp add: KEY_defs)
  moreover have "t_has_key config KEY_LIST = t_has_key config0 KEY_LIST"
    using tripleD [OF t_set_defaults_keys [of KEY_LIST config0] _ sd'] by (simp add: KEY_defs)
  ultimately have "t_both_directives config0"
    using b by (simp add: t_both_directives_def)
  moreover have "list_all (\<lambda>c. \<not> t_has_key c KEY_LIST) new"
    using tripleD [OF t_params_combine_keys [of KEY_LIST conv config Zip] _ x']
    by (simp add: KEY_defs)
  then have "filter t_both_directives new = []"
    by (auto simp: filter_empty_conv t_both_directives_def list_all_iff)
  ultimately show "((conv, la, seen @ [config], rest @ new, store_list (la, seen @ config # rest @ new) s2),
       (conv, la, seen, config0 # rest, s))
      \<in> measures [\<lambda>(conv, la, seen, ws, s). length (filter t_both_directives ws),
                   \<lambda>(conv, la, seen, ws, s). length ws]"
    by simp
next
  fix conv :: conv and la :: addr and seen :: "tdict list" and config0 :: tdict
    and rest :: "tdict list" and s s2 :: state and config :: tdict
  show "((conv, la, seen @ [config], rest, s2), (conv, la, seen, config0 # rest, s))
      \<in> measures [\<lambda>(conv, la, seen, ws, s). length (filter t_both_directives ws),
                   \<lambda>(conv, la, seen, ws, s). length ws]"
    by simp
qed

text \<open>
  The path normalizer is a parameter here too: it gets the records of
  \<open>expanded_config_list\<close> and may write to them.
\<close>

type_synonym t_normalizer = "tdict list \<Rightarrow> tdict list prog"

definition t_expand_experiments :: "conv \<Rightarrow> t_normalizer \<Rightarrow> tlist \<Rightarrow> tdict list prog" where
  "t_expand_experiments conv normalize_paths experiment_configs0 =
     and_then (deepcopy_templates experiment_configs0) (\<lambda>experiment_configs.
     and_then (t_expand_worklist conv (fst experiment_configs) [] (snd experiment_configs))
       (\<lambda>expanded_config_list.
     normalize_paths expanded_config_list))"

definition t_unroll_rep :: "tdict \<Rightarrow> nat \<Rightarrow> tdict prog" where
  "t_unroll_rep config r =
     and_then (deepcopy_dict config) (\<lambda>c0.
     and_then (t_setitem KEY_i_REP_IDX (TInt (int r)) c0) (\<lambda>c1.
     and_then (t_getitem c1 KEY_LOG_PATH) (\<lambda>lp.
     and_then (as_str lp) (\<lambda>log_path.
     t_setitem KEY_i_REP_LOG_PATH
       (TStr (os_path_join log_path (''rep_'' @ format_02d r))) c1))))"

definition t_unroll_config :: "tdict \<Rightarrow> tdict list prog" where
  "t_unroll_config config =
     (if t_has_key config KEY_i_REP_IDX then ret [config]
      else and_then (t_getitem config KEY_REPS) (\<lambda>v.
           and_then (as_int v) (\<lambda>reps.
           mapM_prog (t_unroll_rep config) [0 ..< nat reps])))"

definition t_unroll_exp_reps :: "tdict list \<Rightarrow> tdict list prog" where
  "t_unroll_exp_reps exp_configs =
     and_then (mapM_prog t_unroll_config exp_configs) (\<lambda>xss. ret (concat xss))"

definition t_unfold_exps :: "conv \<Rightarrow> t_normalizer \<Rightarrow> tlist \<Rightarrow> tdict list prog" where
  "t_unfold_exps conv normalize_paths exp_configs =
     and_then (t_expand_experiments conv normalize_paths exp_configs) t_unroll_exp_reps"

text \<open>The normalizer that returns the records as they are.\<close>

definition t_keep_paths :: t_normalizer where
  "t_keep_paths cs = ret cs"

text \<open>A caller that holds a list of two templates, the second with a nested \<open>params\<close>.\<close>

definition caller_templates :: tlist where
  "caller_templates =
     (0, [(1, [(''name'', TStr ''exp''), (''path'', TStr ''/out''), (''repetitions'', TInt 2),
               (''log_path'', TStr ''/out/log''),
               (''grid'', TDict 2 [(''a'', TList 3 [TInt 1, TInt 2])])]),
          (4, [(''name'', TStr ''abl''), (''path'', TStr ''/out''), (''repetitions'', TInt 1),
               (''log_path'', TStr ''/out/log''),
               (''params'', TDict 5 [(''b'', TInt 0)]),
               (''grid'', TDict 6 [(''a'', TList 7 [TInt 1])]),
               (''list'', TDict 8 [(''c'', TList 9 [TInt 5, TInt 6])]),
               (''ablative'', TDict 10 [(''b'', TList 11 [TInt 7])])])])"

definition caller_state :: state where
  "caller_state = \<lparr>nxt = 12, world = [list_val caller_templates], logged = []\<rparr>"

section \<open>The caller's objects stay as they are\<close>

lemma all_addrs_mono:
  "(\<And>a. P a \<Longrightarrow> Q a) \<Longrightarrow> all_addrs P v \<Longrightarrow> all_addrs Q v"
  "(\<And>a. P a \<Longrightarrow> Q a) \<Longrightarrow> all_addrs_list P xs \<Longrightarrow> all_addrs_list Q xs"
  "(\<And>a. P a \<Longrightarrow> Q a) \<Longrightarrow> all_addrs_items P kvs \<Longrightarrow> all_addrs_items Q kvs"
  by (induction P v and P xs and P kvs rule: all_addrs_all_addrs_list_all_addrs_items.induct) auto

lemma write_obj_other:
  "all_addrs (\<lambda>b. b \<noteq> a) v \<Longrightarrow> write_obj a new v = v"
  "all_addrs_list (\<lambda>b. b \<noteq> a) xs \<Longrightarrow> write_list a new xs = xs"
  "all_addrs_items (\<lambda>b. b \<noteq> a) kvs \<Longrightarrow> write_items a new kvs = kvs"
  by (induction a new v and a new xs and a new kvs rule: write_obj_write_list_write_items.induct) auto

lemma write_obj_below: "all_below n v \<Longrightarrow> n \<le> a \<Longrightarrow> write_obj a new v = v"
proof (rule write_obj_other(1))
  assume "all_below n v" and "n \<le> a"
  then show "all_addrs (\<lambda>b. b \<noteq> a) v"
    unfolding all_below_def by (elim all_addrs_mono(1) [rotated]) simp
qed

lemma deepcopy_above:
  "deepcopy n v = (n', v') \<Longrightarrow> n \<le> n' \<and> all_addrs (\<lambda>a. n \<le> a) v'"
  "deepcopy_list n xs = (n', xs') \<Longrightarrow> n \<le> n' \<and> all_addrs_list (\<lambda>a. n \<le> a) xs'"
  "deepcopy_items n kvs = (n', kvs') \<Longrightarrow> n \<le> n' \<and> all_addrs_items (\<lambda>a. n \<le> a) kvs'"
proof (induction n v and n xs and n kvs arbitrary: n' v' and n' xs' and n' kvs'
    rule: deepcopy_deepcopy_list_deepcopy_items.induct)
  case (1 n)
  then show ?case by auto
next
  case (2 n i)
  then show ?case by auto
next
  case (3 n s)
  then show ?case by auto
next
  case (4 n a xs)
  obtain m ys where r: "deepcopy_list (Suc n) xs = (m, ys)" by (cases "deepcopy_list (Suc n) xs")
  from "4.IH" [OF r] have "Suc n \<le> m" and a: "all_addrs_list (\<lambda>a. Suc n \<le> a) ys" by simp_all
  from a have "all_addrs_list (\<lambda>a. n \<le> a) ys" by (rule all_addrs_mono(2) [rotated]) simp
  with "4.prems" r \<open>Suc n \<le> m\<close> show ?case by auto
next
  case (5 n a kvs)
  obtain m ys where r: "deepcopy_items (Suc n) kvs = (m, ys)" by (cases "deepcopy_items (Suc n) kvs")
  from "5.IH" [OF r] have "Suc n \<le> m" and a: "all_addrs_items (\<lambda>a. Suc n \<le> a) ys" by simp_all
  from a have "all_addrs_items (\<lambda>a. n \<le> a) ys" by (rule all_addrs_mono(3) [rotated]) simp
  with "5.prems" r \<open>Suc n \<le> m\<close> show ?case by auto
next
  case (6 n)
  then show ?case by auto
next
  case (7 n x xs)
  obtain n1 x' where x: "deepcopy n x = (n1, x')" by (cases "deepcopy n x")
  obtain n2 ys where r: "deepcopy_list n1 xs = (n2, ys)" by (cases "deepcopy_list n1 xs")
  from "7.IH"(1) [OF x] have nx: "n \<le> n1" and ax: "all_addrs (\<lambda>a. n \<le> a) x'" by simp_all
  from "7.IH"(2) [OF x [symmetric] r] have nr: "n1 \<le> n2"
    and ar: "all_addrs_list (\<lambda>a. n1 \<le> a) ys" by simp_all
  from ar nx have "all_addrs_list (\<lambda>a. n \<le> a) ys" by (elim all_addrs_mono(2) [rotated]) simp
  with "7.prems" x r nx nr ax show ?case by auto
next
  case (8 n)
  then show ?case by auto
next
  case (9 n k v kvs)
  obtain n1 v2 where x: "deepcopy n v = (n1, v2)" by (cases "deepcopy n v")
  obtain n2 ys where r: "deepcopy_items n1 kvs = (n2, ys)" by (cases "deepcopy_items n1 kvs")
  from "9.IH"(1) [OF x] have nx: "n \<le> n1" and ax: "all_addrs (\<lambda>a. n \<le> a) v2" by simp_all
  from "9.IH"(2) [OF x [symmetric] r] have nr: "n1 \<le> n2"
    and ar: "all_addrs_items (\<lambda>a. n1 \<le> a) ys" by simp_all
  from ar nx have "all_addrs_items (\<lambda>a. n \<le> a) ys" by (elim all_addrs_mono(3) [rotated]) simp
  with "9.prems" x r nx nr ax show ?case by auto
qed

text \<open>
  \<open>framed n0 W\<close>: the allocator has not gone back behind \<open>n0\<close> and the caller's objects are
  \<open>W\<close>. Where all of \<open>W\<close> lies below \<open>n0\<close>, a write to an object at or above \<open>n0\<close> keeps it.
  \<open>above_dict n0 d\<close>: the dict \<open>d\<close> and every object in it were made at or above \<open>n0\<close>.
\<close>

definition framed :: "addr \<Rightarrow> tval list \<Rightarrow> state \<Rightarrow> bool" where
  "framed n0 W s = (n0 \<le> nxt s \<and> world s = W)"

definition above_dict :: "addr \<Rightarrow> tdict \<Rightarrow> bool" where
  "above_dict n d = all_above n (dict_val d)"

lemma above_dict_iff: "above_dict n d = (n \<le> fst d \<and> all_addrs_items (\<lambda>a. n \<le> a) (snd d))"
  by (simp add: above_dict_def all_above_def dict_val_def)

lemma all_addrs_items_update:
  "all_addrs_items P kvs \<Longrightarrow> all_addrs P v \<Longrightarrow> all_addrs_items P (AList.update k v kvs)"
  by (induction kvs) auto

lemma all_addrs_items_delete:
  "all_addrs_items P kvs \<Longrightarrow> all_addrs_items P (AList.delete k kvs)"
  by (induction kvs) auto

lemma all_addrs_items_map_of:
  "all_addrs_items P kvs \<Longrightarrow> map_of kvs k = Some v \<Longrightarrow> all_addrs P v"
  by (induction kvs) (auto split: if_splits)

lemma store_dict_framed:
  assumes "\<forall>w \<in> set W. all_below n0 w" and "n0 \<le> fst d" and "framed n0 W s"
  shows "framed n0 W (store_dict d s)"
proof -
  have "map (write_obj (fst d) (dict_val d)) W = W"
  proof (rule map_idI)
    fix w assume "w \<in> set W"
    with assms(1) have "all_below n0 w" by blast
    then show "write_obj (fst d) (dict_val d) w = w" using assms(2) by (rule write_obj_below)
  qed
  with assms(3) show ?thesis by (simp add: framed_def store_dict_def)
qed

lemma store_list_framed:
  assumes "\<forall>w \<in> set W. all_below n0 w" and "n0 \<le> fst l" and "framed n0 W s"
  shows "framed n0 W (store_list l s)"
proof -
  have "map (write_obj (fst l) (list_val l)) W = W"
  proof (rule map_idI)
    fix w assume "w \<in> set W"
    with assms(1) have "all_below n0 w" by blast
    then show "write_obj (fst l) (list_val l) w = w" using assms(2) by (rule write_obj_below)
  qed
  with assms(3) show ?thesis by (simp add: framed_def store_list_def)
qed

lemma t_setitem_frame:
  assumes "\<forall>w \<in> set W. all_below n0 w" and "above_dict n0 d" and "all_above n0 v"
  shows "triple (framed n0 W) (t_setitem k v d) (above_dict n0)"
proof (rule tripleI)
  fix s s' r
  assume f: "framed n0 W s" and run: "t_setitem k v d s = (s', r)"
  let ?d = "(fst d, AList.update k v (snd d))"
  from run have s': "s' = store_dict ?d s" and r: "r = Inr ?d"
    by (simp_all add: t_setitem_def Let_def)
  from assms(2) have n: "n0 \<le> fst ?d" by (simp add: above_dict_iff)
  have "framed n0 W s'" unfolding s' by (rule store_dict_framed [OF assms(1) n f])
  moreover have "above_dict n0 ?d"
    using assms(2) assms(3) by (simp add: above_dict_iff all_above_def all_addrs_items_update)
  ultimately show "framed n0 W s' \<and> (\<forall>x. r = Inr x \<longrightarrow> above_dict n0 x)"
    using r by simp
qed

lemma t_delitem_frame:
  assumes "\<forall>w \<in> set W. all_below n0 w" and "above_dict n0 d"
  shows "triple (framed n0 W) (t_delitem k d) (above_dict n0)"
proof (rule tripleI)
  fix s s' r
  assume f: "framed n0 W s" and run: "t_delitem k d s = (s', r)"
  let ?d = "(fst d, AList.delete k (snd d))"
  from assms(2) have n: "n0 \<le> fst ?d" by (simp add: above_dict_iff)
  have fr: "framed n0 W (store_dict ?d s)" by (rule store_dict_framed [OF assms(1) n f])
  have ab: "above_dict n0 ?d"
    using assms(2) by (simp add: above_dict_iff all_addrs_items_delete)
  from run f fr ab show "framed n0 W s' \<and> (\<forall>x. r = Inr x \<longrightarrow> above_dict n0 x)"
    by (auto simp: t_delitem_def Let_def split: if_splits)
qed

lemma fresh_frame: "triple (framed n0 W) fresh (\<lambda>a. n0 \<le> a)"
  by (rule tripleI) (auto simp: fresh_def framed_def)

lemma warn_frame: "triple (framed n0 W) (warn w) (\<lambda>_. True)"
  by (rule tripleI) (auto simp: warn_def framed_def)

lemma t_getitem_above:
  "above_dict n0 d \<Longrightarrow> triple I (t_getitem d k) (all_above n0)"
  by (rule triple_weaken [OF t_getitem_triple])
     (auto simp: above_dict_iff all_above_def dest: all_addrs_items_map_of)

lemma as_dict_above: "all_above n0 v \<Longrightarrow> triple I (as_dict v) (above_dict n0)"
  by (rule triple_weaken [OF as_dict_triple]) (simp add: above_dict_def)

lemma as_str_any: "triple I (as_str v) (\<lambda>_. True)"
  by (rule triple_weaken [OF as_str_triple]) simp

lemma as_int_any: "triple I (as_int v) (\<lambda>_. True)"
  by (rule triple_weaken [OF as_int_triple]) simp

lemma deepcopy_dict_frame: "triple (framed n0 W) (deepcopy_dict d) (above_dict n0)"
proof (rule tripleI)
  fix s s' r
  assume f: "framed n0 W s" and run: "deepcopy_dict d s = (s', r)"
  obtain n' kvs' where c: "deepcopy_items (Suc (nxt s)) (snd d) = (n', kvs')"
    by (cases "deepcopy_items (Suc (nxt s)) (snd d)")
  from deepcopy_above(3) [OF c] have le: "Suc (nxt s) \<le> n'"
    and a: "all_addrs_items (\<lambda>a. Suc (nxt s) \<le> a) kvs'" by simp_all
  from f have n: "n0 \<le> nxt s" by (simp add: framed_def)
  from a n have "all_addrs_items (\<lambda>a. n0 \<le> a) kvs'"
    by (elim all_addrs_mono(3) [rotated]) simp
  with run c f le n show "framed n0 W s' \<and> (\<forall>x. r = Inr x \<longrightarrow> above_dict n0 x)"
    by (auto simp: deepcopy_dict_def framed_def above_dict_iff)
qed

lemma above_dict_mono: "above_dict n d \<Longrightarrow> m \<le> n \<Longrightarrow> above_dict m d"
  unfolding above_dict_def all_above_def by (elim all_addrs_mono(1) [rotated]) simp

lemma deepcopy_dicts_above:
  "deepcopy_dicts n ds = (n', ds') \<Longrightarrow> n \<le> n' \<and> list_all (above_dict n) ds'"
proof (induction ds arbitrary: n n' ds')
  case Nil
  then show ?case by simp
next
  case (Cons d ds)
  obtain n1 kvs' where c: "deepcopy_items (Suc n) (snd d) = (n1, kvs')"
    by (cases "deepcopy_items (Suc n) (snd d)")
  obtain n2 rest where r: "deepcopy_dicts n1 ds = (n2, rest)" by (cases "deepcopy_dicts n1 ds")
  from deepcopy_above(3) [OF c] have le: "Suc n \<le> n1"
    and a: "all_addrs_items (\<lambda>a. Suc n \<le> a) kvs'" by simp_all
  from a have a': "all_addrs_items (\<lambda>a. n \<le> a) kvs'"
    by (rule all_addrs_mono(3) [rotated]) simp
  from Cons.IH [OF r] have le2: "n1 \<le> n2" and ar: "list_all (above_dict n1) rest" by simp_all
  have "list_all (above_dict n) rest"
    using ar le unfolding list_all_iff above_dict_def all_above_def
    by (auto elim!: all_addrs_mono(1) [rotated])
  moreover have "above_dict n (n, kvs')" using a' by (simp add: above_dict_iff)
  moreover have "n \<le> n'" and "ds' = (n, kvs') # rest" using Cons.prems c r le le2 by auto
  ultimately show ?case by simp
qed

lemma deepcopy_templates_frame:
  "triple (framed n0 W) (deepcopy_templates l) (\<lambda>l'. n0 \<le> fst l' \<and> list_all (above_dict n0) (snd l'))"
proof (rule tripleI)
  fix s s' r
  assume f: "framed n0 W s" and run: "deepcopy_templates l s = (s', r)"
  obtain n' ds' where c: "deepcopy_dicts (Suc (nxt s)) (snd l) = (n', ds')"
    by (cases "deepcopy_dicts (Suc (nxt s)) (snd l)")
  from deepcopy_dicts_above [OF c] have le: "Suc (nxt s) \<le> n'"
    and a: "list_all (above_dict (Suc (nxt s))) ds'" by simp_all
  from f have n: "n0 \<le> nxt s" by (simp add: framed_def)
  from n have "n0 \<le> Suc (nxt s)" by simp
  with a have "list_all (above_dict n0) ds'"
    unfolding list_all_iff by (blast intro: above_dict_mono)
  with run c f le n
  show "framed n0 W s' \<and> (\<forall>x. r = Inr x \<longrightarrow> n0 \<le> fst x \<and> list_all (above_dict n0) (snd x))"
    by (auto simp: deepcopy_templates_def framed_def)
qed

lemma all_addrs_list_iff: "all_addrs_list P xs = list_all (all_addrs P) xs"
  by (induction xs) auto

lemma t_flatten_items_above:
  "t_flatten_items kvs = Inr td \<Longrightarrow> all_addrs_items P kvs
   \<Longrightarrow> list_all (\<lambda>px. list_all (all_addrs P) (snd px)) td"
proof (induction kvs arbitrary: td rule: t_flatten_items.induct)
  case 1
  then show ?case by simp
next
  case (2 k v kvs)
  show ?case
  proof (cases v)
    case (TDict a sub)
    with "2.prems"(1) obtain fs gs where
      fs: "t_flatten_items sub = Inr fs" and gs: "t_flatten_items kvs = Inr gs"
      and td: "td = map (\<lambda>(p, xs). (k # p, xs)) fs @ gs"
      by (auto split: sum.splits)
    from "2.prems"(2) TDict have s: "all_addrs_items P sub" and r: "all_addrs_items P kvs"
      by simp_all
    have "list_all (\<lambda>px. list_all (all_addrs P) (snd px)) fs"
      by (rule "2.IH"(2) [OF TDict fs s])
    moreover have "list_all (\<lambda>px. list_all (all_addrs P) (snd px)) gs"
      by (rule "2.IH"(3) [OF TDict fs gs r])
    ultimately show ?thesis
      unfolding td by (auto simp: list_all_iff)
  next
    case (TList a xs)
    with "2.prems"(1) obtain gs where
      gs: "t_flatten_items kvs = Inr gs" and td: "td = ([k], xs) # gs"
      by (auto split: sum.splits)
    from "2.prems"(2) TList have s: "all_addrs_list P xs" and r: "all_addrs_items P kvs"
      by simp_all
    have "list_all (\<lambda>px. list_all (all_addrs P) (snd px)) gs"
      by (rule "2.IH"(1) [OF TList gs r])
    with s show ?thesis unfolding td by (simp add: all_addrs_list_iff)
  next
    case TNone
    with "2.prems"(1) show ?thesis by simp
  next
    case (TInt i)
    with "2.prems"(1) show ?thesis by simp
  next
    case (TStr s)
    with "2.prems"(1) show ?thesis by simp
  qed
qed

lemma t_flatten_above:
  assumes "t_flatten_dict_to_tuple_keys d = Inr td" and "all_above n0 d"
  shows "list_all (\<lambda>px. list_all (all_above n0) (snd px)) td"
proof -
  from assms(1) obtain a kvs where d: "d = TDict a kvs" and f: "t_flatten_items kvs = Inr td"
    by (auto simp: t_flatten_dict_to_tuple_keys_def split: tval.splits)
  from assms(2) d have "all_addrs_items (\<lambda>a. n0 \<le> a) kvs" by (simp add: all_above_def)
  from t_flatten_items_above [OF f this] show ?thesis
    by (simp add: all_above_def [abs_def])
qed

lemma product_lists_all:
  "vs \<in> set (product_lists xss) \<Longrightarrow> \<forall>xs \<in> set xss. list_all Q xs \<Longrightarrow> list_all Q vs"
proof (induction xss arbitrary: vs)
  case Nil
  then show ?case by simp
next
  case (Cons xs xss)
  from Cons.prems(1) obtain x ws where "x \<in> set xs" and "ws \<in> set (product_lists xss)"
    and vs: "vs = x # ws"
    by auto
  with Cons.IH [of ws] Cons.prems(2) show ?case by (auto simp: list_all_iff)
qed

lemma py_zip_all:
  assumes "vs \<in> set (py_zip xss)" and "\<forall>xs \<in> set xss. list_all Q xs"
  shows "list_all Q vs"
proof -
  from assms(1) obtain i where i: "i < Min (set (map length xss))" and ne: "xss \<noteq> []"
    and vs: "vs = map (\<lambda>xs. xs ! i) xss"
    by (auto simp: py_zip_def split: if_splits)
  have "Q (xs ! i)" if "xs \<in> set xss" for xs
  proof -
    from that have "Min (set (map length xss)) \<le> length xs" by simp
    with i have "i < length xs" by simp
    with assms(2) that show ?thesis by (auto simp: list_all_iff)
  qed
  then show ?thesis unfolding vs by (simp add: list_all_iff)
qed

lemma apply_iter_all:
  "vs \<in> set (apply_iter f xss) \<Longrightarrow> \<forall>xs \<in> set xss. list_all Q xs \<Longrightarrow> list_all Q vs"
  by (cases f) (auto simp: apply_iter_def intro: product_lists_all py_zip_all)

lemma t_insert_deep_frame:
  assumes W: "\<forall>w \<in> set W. all_below n0 w"
  shows "above_dict n0 d \<Longrightarrow> all_above n0 v
    \<Longrightarrow> triple (framed n0 W) (t_insert_deep_dictionary d p v) (above_dict n0)"
proof (induction d p v rule: t_insert_deep_dictionary.induct)
  case (1 d v)
  show ?case by (simp add: triple_raise)
next
  case (2 d k v)
  then show ?case by (simp add: t_setitem_frame [OF W])
next
  case (3 d k k' ks v)
  show ?case
  proof (cases "map_of (snd d) k")
    case None
    have "triple (framed n0 W)
        (and_then fresh (\<lambda>a.
          and_then (t_setitem k (TDict a []) d) (\<lambda>d1.
          and_then (t_insert_deep_dictionary (a, []) (k' # ks) v) (\<lambda>sub'.
          ret (fst d1, AList.update k (dict_val sub') (snd d1))))))
        (above_dict n0)"
    proof (rule triple_bind [OF fresh_frame])
      fix a :: addr assume a: "n0 \<le> a"
      then have e: "all_above n0 (TDict a [])" and e': "above_dict n0 (a, [])"
        by (simp_all add: all_above_def above_dict_iff)
      show "triple (framed n0 W)
          (and_then (t_setitem k (TDict a []) d) (\<lambda>d1.
           and_then (t_insert_deep_dictionary (a, []) (k' # ks) v) (\<lambda>sub'.
           ret (fst d1, AList.update k (dict_val sub') (snd d1)))))
          (above_dict n0)"
      proof (rule triple_bind [OF t_setitem_frame [OF W "3.prems"(1) e]])
        fix d1 assume d1: "above_dict n0 d1"
        show "triple (framed n0 W)
            (and_then (t_insert_deep_dictionary (a, []) (k' # ks) v) (\<lambda>sub'.
             ret (fst d1, AList.update k (dict_val sub') (snd d1))))
            (above_dict n0)"
        proof (rule triple_bind [OF "3.IH"(1) [OF None e' "3.prems"(2)]])
          fix sub' assume "above_dict n0 sub'"
          with d1 show "triple (framed n0 W)
              (ret (fst d1, AList.update k (dict_val sub') (snd d1))) (above_dict n0)"
            by (intro triple_ret)
               (simp add: above_dict_iff dict_val_def all_addrs_items_update)
        qed
      qed
    qed
    with None show ?thesis by simp
  next
    case (Some x)
    show ?thesis
    proof (cases x)
      case (TDict a sub)
      from "3.prems"(1) Some TDict have s: "above_dict n0 (a, sub)"
        using all_addrs_items_map_of [of "\<lambda>a. n0 \<le> a" "snd d" k x]
        by (simp add: above_dict_iff)
      have "triple (framed n0 W)
          (and_then (t_insert_deep_dictionary (a, sub) (k' # ks) v) (\<lambda>sub'.
           ret (fst d, AList.update k (dict_val sub') (snd d))))
          (above_dict n0)"
      proof (rule triple_bind [OF "3.IH"(2) [OF Some TDict s "3.prems"(2)]])
        fix sub' assume "above_dict n0 sub'"
        with "3.prems"(1) show "triple (framed n0 W)
            (ret (fst d, AList.update k (dict_val sub') (snd d))) (above_dict n0)"
          by (intro triple_ret)
             (simp add: above_dict_iff dict_val_def all_addrs_items_update)
      qed
      with Some TDict show ?thesis by simp
    next
      case TNone
      with Some show ?thesis by (simp add: triple_raise)
    next
      case (TInt i)
      with Some show ?thesis by (simp add: triple_raise)
    next
      case (TStr s)
      with Some show ?thesis by (simp add: triple_raise)
    next
      case (TList a xs)
      with Some show ?thesis by (simp add: triple_raise)
    qed
  qed
qed

lemma t_insert_param_frame:
  assumes W: "\<forall>w \<in> set W. all_below n0 w" and c: "above_dict n0 config" and v: "all_above n0 (snd tv)"
  shows "triple (framed n0 W) (t_insert_param config tv) (above_dict n0)"
  unfolding t_insert_param_def
proof (rule triple_bind [OF t_getitem_above [OF c]])
  fix p assume p: "all_above n0 p"
  show "triple (framed n0 W)
      (and_then (as_dict p) (\<lambda>pd.
       and_then (t_insert_deep_dictionary pd (fst tv) (snd tv)) (\<lambda>pd'.
       ret (fst config, AList.update KEY_PARAMS (dict_val pd') (snd config)))))
      (above_dict n0)"
  proof (rule triple_bind [OF as_dict_above [OF p]])
    fix pd assume pd: "above_dict n0 pd"
    show "triple (framed n0 W)
        (and_then (t_insert_deep_dictionary pd (fst tv) (snd tv)) (\<lambda>pd'.
         ret (fst config, AList.update KEY_PARAMS (dict_val pd') (snd config))))
        (above_dict n0)"
    proof (rule triple_bind [OF t_insert_deep_frame [OF W pd v]])
      fix pd' assume "above_dict n0 pd'"
      with c show "triple (framed n0 W)
          (ret (fst config, AList.update KEY_PARAMS (dict_val pd') (snd config))) (above_dict n0)"
        by (intro triple_ret) (simp add: above_dict_iff dict_val_def all_addrs_items_update)
    qed
  qed
qed

lemma t_insert_params_frame:
  assumes W: "\<forall>w \<in> set W. all_below n0 w"
  shows "above_dict n0 config \<Longrightarrow> list_all (\<lambda>tv. all_above n0 (snd tv)) tvs
    \<Longrightarrow> triple (framed n0 W) (t_insert_params config tvs) (above_dict n0)"
proof (induction tvs arbitrary: config)
  case Nil
  then show ?case by (simp add: triple_ret)
next
  case (Cons tv tvs)
  from Cons.prems(2) have v: "all_above n0 (snd tv)" and r: "list_all (\<lambda>tv. all_above n0 (snd tv)) tvs"
    by simp_all
  have "triple (framed n0 W)
      (and_then (t_insert_param config tv) (\<lambda>config'. t_insert_params config' tvs)) (above_dict n0)"
  proof (rule triple_bind [OF t_insert_param_frame [OF W Cons.prems(1) v]])
    fix c' assume "above_dict n0 c'"
    then show "triple (framed n0 W) (t_insert_params c' tvs) (above_dict n0)"
      using r by (rule Cons.IH)
  qed
  then show ?case by simp
qed

lemma t_ensure_params_frame:
  assumes W: "\<forall>w \<in> set W. all_below n0 w" and c: "above_dict n0 config"
  shows "triple (framed n0 W) (t_ensure_params config) (above_dict n0)"
  unfolding t_ensure_params_def
proof (rule triple_if)
  show "triple (framed n0 W) (and_then fresh (\<lambda>a. t_setitem KEY_PARAMS (TDict a []) config))
      (above_dict n0)"
  proof (rule triple_bind [OF fresh_frame])
    fix a :: addr assume "n0 \<le> a"
    then have "all_above n0 (TDict a [])" by (simp add: all_above_def)
    then show "triple (framed n0 W) (t_setitem KEY_PARAMS (TDict a []) config) (above_dict n0)"
      by (rule t_setitem_frame [OF W c])
  qed
next
  show "triple (framed n0 W) (ret config) (above_dict n0)" using c by (rule triple_ret)
qed

lemma t_getitem_any: "triple I (t_getitem d k) (\<lambda>_. True)"
  by (rule triple_weaken [OF t_getitem_triple]) simp

lemma t_extend_config_name_frame:
  assumes W: "\<forall>w \<in> set W. all_below n0 w" and c: "above_dict n0 config"
  shows "triple (framed n0 W) (t_extend_config_name conv config pn vals) (above_dict n0)"
  unfolding t_extend_config_name_def Let_def
proof (rule triple_bind [OF t_getitem_any])
  fix v :: tval
  show "triple (framed n0 W)
      (and_then (as_str v) (\<lambda>n.
       and_then (t_setitem KEY_i_EXP_NAME
                  (TStr (n @ (if str_contains n ''__'' then ''_'' else ''__'') @ conv pn (erase_list vals)))
                  config) (\<lambda>config1.
       and_then (t_getitem config1 KEY_NAME) (\<lambda>nm. t_setitem KEY_i_NEST_DIR nm config1))))
      (above_dict n0)"
  proof (rule triple_bind [OF as_str_any])
    fix n
    have s: "all_above n0 (TStr (n @ (if str_contains n ''__'' then ''_'' else ''__'') @ conv pn (erase_list vals)))"
      by (simp add: all_above_def)
    show "triple (framed n0 W)
        (and_then (t_setitem KEY_i_EXP_NAME
                  (TStr (n @ (if str_contains n ''__'' then ''_'' else ''__'') @ conv pn (erase_list vals)))
                  config) (\<lambda>config1.
         and_then (t_getitem config1 KEY_NAME) (\<lambda>nm. t_setitem KEY_i_NEST_DIR nm config1)))
        (above_dict n0)"
    proof (rule triple_bind [OF t_setitem_frame [OF W c s]])
      fix c1 assume c1: "above_dict n0 c1"
      show "triple (framed n0 W)
          (and_then (t_getitem c1 KEY_NAME) (\<lambda>nm. t_setitem KEY_i_NEST_DIR nm c1)) (above_dict n0)"
      proof (rule triple_bind [OF t_getitem_above [OF c1]])
        fix nm assume "all_above n0 nm"
        then show "triple (framed n0 W) (t_setitem KEY_i_NEST_DIR nm c1) (above_dict n0)"
          by (rule t_setitem_frame [OF W c1])
      qed
    qed
  qed
qed

lemma t_combine_one_frame:
  assumes W: "\<forall>w \<in> set W. all_below n0 w" and v: "list_all (all_above n0) vals"
  shows "triple (framed n0 W) (t_combine_one conv config key paths pn vals) (above_dict n0)"
  unfolding t_combine_one_def
proof (rule triple_bind [OF deepcopy_dict_frame])
  fix c0 assume c0: "above_dict n0 c0"
  show "triple (framed n0 W)
      (and_then (t_delitem key c0) (\<lambda>c1.
       and_then (t_ensure_params c1) (\<lambda>c2.
       and_then (t_insert_params c2 (zip paths vals)) (\<lambda>c3.
       t_extend_config_name conv c3 pn vals))))
      (above_dict n0)"
  proof (rule triple_bind [OF t_delitem_frame [OF W c0]])
    fix c1 assume c1: "above_dict n0 c1"
    show "triple (framed n0 W)
        (and_then (t_ensure_params c1) (\<lambda>c2.
         and_then (t_insert_params c2 (zip paths vals)) (\<lambda>c3.
         t_extend_config_name conv c3 pn vals)))
        (above_dict n0)"
    proof (rule triple_bind [OF t_ensure_params_frame [OF W c1]])
      fix c2 assume c2: "above_dict n0 c2"
      have z: "list_all (\<lambda>tv. all_above n0 (snd tv)) (zip paths vals)"
        using v by (auto simp: list_all_iff dest: set_zip_rightD)
      show "triple (framed n0 W)
          (and_then (t_insert_params c2 (zip paths vals)) (\<lambda>c3.
           t_extend_config_name conv c3 pn vals))
          (above_dict n0)"
      proof (rule triple_bind [OF t_insert_params_frame [OF W c2 z]])
        fix c3 assume "above_dict n0 c3"
        then show "triple (framed n0 W) (t_extend_config_name conv c3 pn vals) (above_dict n0)"
          by (rule t_extend_config_name_frame [OF W])
      qed
    qed
  qed
qed

lemma t_params_combine_frame:
  assumes W: "\<forall>w \<in> set W. all_below n0 w" and c: "above_dict n0 config"
  shows "triple (framed n0 W) (t_params_combine conv config key iter_func) (list_all (above_dict n0))"
proof (cases iter_func)
  case None
  with c show ?thesis by (simp add: t_params_combine_def triple_ret)
next
  case (Some f)
  show ?thesis
  proof (cases key)
    case None
    with Some show ?thesis by (simp add: t_params_combine_def triple_raise)
  next
    case (Some k)
    have "triple (framed n0 W)
        (and_then (t_getitem config k) (\<lambda>directive.
         and_then (lift (t_flatten_dict_to_tuple_keys directive)) (\<lambda>tuple_dict.
         and_then
           (if k = KEY_LIST \<and> length (remdups (map (length \<circ> snd) tuple_dict)) \<noteq> 1
            then and_then (t_getitem config KEY_NAME) (\<lambda>nm. warn (UnequalListLengths (erase nm)))
            else ret ()) (\<lambda>_.
         mapM_prog
           (t_combine_one conv config k (map fst tuple_dict) (map (join_dot \<circ> fst) tuple_dict))
           (apply_iter f (map snd tuple_dict))))))
        (list_all (above_dict n0))"
    proof (rule triple_bind [OF t_getitem_above [OF c]])
      fix directive assume d: "all_above n0 directive"
      show "triple (framed n0 W)
          (and_then (lift (t_flatten_dict_to_tuple_keys directive)) (\<lambda>tuple_dict.
           and_then
             (if k = KEY_LIST \<and> length (remdups (map (length \<circ> snd) tuple_dict)) \<noteq> 1
              then and_then (t_getitem config KEY_NAME) (\<lambda>nm. warn (UnequalListLengths (erase nm)))
              else ret ()) (\<lambda>_.
           mapM_prog
             (t_combine_one conv config k (map fst tuple_dict) (map (join_dot \<circ> fst) tuple_dict))
             (apply_iter f (map snd tuple_dict)))))
          (list_all (above_dict n0))"
      proof (rule triple_bind [where P = "\<lambda>td. list_all (\<lambda>px. list_all (all_above n0) (snd px)) td"])
        show "triple (framed n0 W) (lift (t_flatten_dict_to_tuple_keys directive))
            (\<lambda>td. list_all (\<lambda>px. list_all (all_above n0) (snd px)) td)"
          by (rule triple_lift) (rule t_flatten_above [OF _ d])
      next
        fix tuple_dict :: "(string list \<times> tval list) list"
        assume td: "list_all (\<lambda>px. list_all (all_above n0) (snd px)) tuple_dict"
        show "triple (framed n0 W)
            (and_then
               (if k = KEY_LIST \<and> length (remdups (map (length \<circ> snd) tuple_dict)) \<noteq> 1
                then and_then (t_getitem config KEY_NAME) (\<lambda>nm. warn (UnequalListLengths (erase nm)))
                else ret ()) (\<lambda>_.
             mapM_prog
               (t_combine_one conv config k (map fst tuple_dict) (map (join_dot \<circ> fst) tuple_dict))
               (apply_iter f (map snd tuple_dict))))
            (list_all (above_dict n0))"
        proof (rule triple_bind [where P = "\<lambda>_. True"])
          show "triple (framed n0 W)
              (if k = KEY_LIST \<and> length (remdups (map (length \<circ> snd) tuple_dict)) \<noteq> 1
               then and_then (t_getitem config KEY_NAME) (\<lambda>nm. warn (UnequalListLengths (erase nm)))
               else ret ()) (\<lambda>_. True)"
            by (intro triple_if triple_bind [OF t_getitem_above [OF c]] warn_frame triple_ret TrueI)
        next
          show "triple (framed n0 W)
              (mapM_prog
                 (t_combine_one conv config k (map fst tuple_dict) (map (join_dot \<circ> fst) tuple_dict))
                 (apply_iter f (map snd tuple_dict)))
              (list_all (above_dict n0))"
          proof (rule triple_mapM)
            fix vs assume vs: "vs \<in> set (apply_iter f (map snd tuple_dict))"
            from td have "\<forall>xs \<in> set (map snd tuple_dict). list_all (all_above n0) xs"
              by (simp add: list_all_iff)
            with vs have "list_all (all_above n0) vs"
              by (rule apply_iter_all)
            then show "triple (framed n0 W)
                (t_combine_one conv config k (map fst tuple_dict) (map (join_dot \<circ> fst) tuple_dict) vs)
                (above_dict n0)"
              by (rule t_combine_one_frame [OF W])
          qed
        qed
      qed
    qed
    with \<open>iter_func = Some f\<close> Some show ?thesis by (simp add: t_params_combine_def)
  qed
qed

lemma t_ablative_one_frame:
  assumes W: "\<forall>w \<in> set W. all_below n0 w" and v: "all_above n0 val"
  shows "triple (framed n0 W) (t_ablative_one conv config path val) (above_dict n0)"
  unfolding t_ablative_one_def
proof (rule triple_bind [OF deepcopy_dict_frame])
  fix c0 assume c0: "above_dict n0 c0"
  show "triple (framed n0 W)
      (and_then (t_ensure_params c0) (\<lambda>c1.
       and_then (t_insert_param c1 (path, val)) (\<lambda>c2.
       t_extend_config_name conv c2 (map (\<lambda>ch. [ch]) (join_dot path)) [val])))
      (above_dict n0)"
  proof (rule triple_bind [OF t_ensure_params_frame [OF W c0]])
    fix c1 assume c1: "above_dict n0 c1"
    from v have v': "all_above n0 (snd (path, val))" by simp
    show "triple (framed n0 W)
        (and_then (t_insert_param c1 (path, val)) (\<lambda>c2.
         t_extend_config_name conv c2 (map (\<lambda>ch. [ch]) (join_dot path)) [val]))
        (above_dict n0)"
    proof (rule triple_bind [OF t_insert_param_frame [OF W c1 v']])
      fix c2 assume "above_dict n0 c2"
      then show "triple (framed n0 W)
          (t_extend_config_name conv c2 (map (\<lambda>ch. [ch]) (join_dot path)) [val]) (above_dict n0)"
        by (rule t_extend_config_name_frame [OF W])
    qed
  qed
qed

lemma t_ablative_config_frame:
  assumes W: "\<forall>w \<in> set W. all_below n0 w" and c: "above_dict n0 config"
  shows "triple (framed n0 W) (t_ablative_config conv config) (list_all (above_dict n0))"
  unfolding t_ablative_config_def
proof (rule triple_bind [OF t_getitem_above [OF c]])
  fix directive assume d: "all_above n0 directive"
  show "triple (framed n0 W)
      (and_then (lift (t_flatten_dict_to_tuple_keys directive)) (\<lambda>tuple_dict.
       mapM_prog (\<lambda>(path, val). t_ablative_one conv config path val)
         (concat (map (\<lambda>(path, vs). map (Pair path) vs) tuple_dict))))
      (list_all (above_dict n0))"
  proof (rule triple_bind [where P = "\<lambda>td. list_all (\<lambda>px. list_all (all_above n0) (snd px)) td"])
    show "triple (framed n0 W) (lift (t_flatten_dict_to_tuple_keys directive))
        (\<lambda>td. list_all (\<lambda>px. list_all (all_above n0) (snd px)) td)"
      by (rule triple_lift) (rule t_flatten_above [OF _ d])
  next
    fix tuple_dict :: "(string list \<times> tval list) list"
    assume td: "list_all (\<lambda>px. list_all (all_above n0) (snd px)) tuple_dict"
    show "triple (framed n0 W)
        (mapM_prog (\<lambda>(path, val). t_ablative_one conv config path val)
           (concat (map (\<lambda>(path, vs). map (Pair path) vs) tuple_dict)))
        (list_all (above_dict n0))"
    proof (rule triple_mapM)
      fix pv assume "pv \<in> set (concat (map (\<lambda>(path, vs). map (Pair path) vs) tuple_dict))"
      then obtain path vs where "(path, vs) \<in> set tuple_dict" and "snd pv \<in> set vs"
        by auto
      with td have "all_above n0 (snd pv)" by (auto simp: list_all_iff)
      then have "triple (framed n0 W) (t_ablative_one conv config (fst pv) (snd pv)) (above_dict n0)"
        by (rule t_ablative_one_frame [OF W])
      then show "triple (framed n0 W) ((\<lambda>(path, val). t_ablative_one conv config path val) pv)
          (above_dict n0)"
        by (simp add: case_prod_unfold)
    qed
  qed
qed

lemma list_all_concat: "list_all (list_all P) xss \<Longrightarrow> list_all P (concat xss)"
  by (induction xss) auto

lemma t_ablative_expand_frame:
  assumes W: "\<forall>w \<in> set W. all_below n0 w" and c: "list_all (above_dict n0) conf_list"
  shows "triple (framed n0 W) (t_ablative_expand conv conf_list) (list_all (above_dict n0))"
  unfolding t_ablative_expand_def
proof (rule triple_bind [where P = "list_all (list_all (above_dict n0))"])
  show "triple (framed n0 W) (mapM_prog (t_ablative_config conv) conf_list)
      (list_all (list_all (above_dict n0)))"
  proof (rule triple_mapM)
    fix x assume "x \<in> set conf_list"
    with c have "above_dict n0 x" by (simp add: list_all_iff)
    then show "triple (framed n0 W) (t_ablative_config conv x) (list_all (above_dict n0))"
      by (rule t_ablative_config_frame [OF W])
  qed
next
  fix xss assume "list_all (list_all (above_dict n0)) xss"
  then have "list_all (above_dict n0) (concat xss)" by (rule list_all_concat)
  then show "triple (framed n0 W) (ret (concat xss)) (list_all (above_dict n0))"
    by (rule triple_ret)
qed

lemma t_set_defaults_frame:
  assumes W: "\<forall>w \<in> set W. all_below n0 w" and c: "above_dict n0 config"
  shows "triple (framed n0 W) (t_set_defaults config) (above_dict n0)"
  unfolding t_set_defaults_def
proof (rule triple_bind [where P = "above_dict n0"])
  show "triple (framed n0 W)
      (if \<not> t_has_key config KEY_i_BASIC_PATH
       then and_then (t_getitem config KEY_PATH) (\<lambda>p. t_setitem KEY_i_BASIC_PATH p config)
       else ret config) (above_dict n0)"
    using c
    by (intro triple_if triple_bind [OF t_getitem_above [OF c]] t_setitem_frame [OF W c] triple_ret)
next
  fix c1 assume c1: "above_dict n0 c1"
  show "triple (framed n0 W)
      (and_then
         (if \<not> t_has_key c1 KEY_i_EXP_NAME
          then and_then (t_getitem c1 KEY_NAME) (\<lambda>n. t_setitem KEY_i_EXP_NAME n c1)
          else ret c1) (\<lambda>c2.
       if \<not> t_has_key c2 KEY_i_NEST_DIR
       then t_setitem KEY_i_NEST_DIR (TStr []) c2
       else ret c2))
      (above_dict n0)"
  proof (rule triple_bind [where P = "above_dict n0"])
    show "triple (framed n0 W)
        (if \<not> t_has_key c1 KEY_i_EXP_NAME
         then and_then (t_getitem c1 KEY_NAME) (\<lambda>n. t_setitem KEY_i_EXP_NAME n c1)
         else ret c1) (above_dict n0)"
      using c1
      by (intro triple_if triple_bind [OF t_getitem_above [OF c1]] t_setitem_frame [OF W c1] triple_ret)
  next
    fix c2 assume c2: "above_dict n0 c2"
    have "all_above n0 (TStr [])" by (simp add: all_above_def)
    then have "triple (framed n0 W) (t_setitem KEY_i_NEST_DIR (TStr []) c2) (above_dict n0)"
      by (rule t_setitem_frame [OF W c2])
    with c2 show "triple (framed n0 W)
        (if \<not> t_has_key c2 KEY_i_NEST_DIR then t_setitem KEY_i_NEST_DIR (TStr []) c2 else ret c2)
        (above_dict n0)"
      by (simp add: triple_ret)
  qed
qed

lemma t_expand_single_frame:
  assumes W: "\<forall>w \<in> set W. all_below n0 w" and c: "above_dict n0 config"
  shows "triple (framed n0 W) (t_expand_single conv config) (list_all (above_dict n0))"
  unfolding t_expand_single_def
proof (rule triple_bind [OF t_params_combine_frame [OF W c]])
  fix expansion assume e: "list_all (above_dict n0) expansion"
  show "triple (framed n0 W)
      (if t_has_key config KEY_ABLATIVE
       then and_then (t_ablative_expand conv expansion) (\<lambda>more. ret (expansion @ more))
       else ret expansion)
      (list_all (above_dict n0))"
  proof (rule triple_if)
    show "triple (framed n0 W)
        (and_then (t_ablative_expand conv expansion) (\<lambda>more. ret (expansion @ more)))
        (list_all (above_dict n0))"
    proof (rule triple_bind [OF t_ablative_expand_frame [OF W e]])
      fix more assume "list_all (above_dict n0) more"
      with e show "triple (framed n0 W) (ret (expansion @ more)) (list_all (above_dict n0))"
        by (intro triple_ret) simp
    qed
  next
    show "triple (framed n0 W) (ret expansion) (list_all (above_dict n0))"
      using e by (rule triple_ret)
  qed
qed

lemma t_expand_worklist_run:
  assumes W: "\<forall>w \<in> set W. all_below n0 w"
  shows "n0 \<le> la \<Longrightarrow> framed n0 W s \<Longrightarrow> list_all (above_dict n0) pending
    \<Longrightarrow> t_expand_worklist conv la seen pending s = (s', r)
    \<Longrightarrow> framed n0 W s' \<and> (\<forall>x. r = Inr x \<longrightarrow> list_all (above_dict n0) x)"
proof (induction conv la seen pending s arbitrary: s' r rule: t_expand_worklist.induct)
  case (1 conv la seen s)
  then show ?case by auto
next
  case (2 conv la seen config0 rest s)
  note la = "2.prems"(1)
  from "2.prems"(3) have c0: "above_dict n0 config0" and rs: "list_all (above_dict n0) rest"
    by simp_all
  obtain s1 r1 where sd: "t_set_defaults config0 s = (s1, r1)" by (cases "t_set_defaults config0 s")
  from tripleD [OF t_set_defaults_frame [OF W c0] "2.prems"(2) sd]
  have f1: "framed n0 W s1" and a1: "\<forall>x. r1 = Inr x \<longrightarrow> above_dict n0 x" by simp_all
  show ?case
  proof (cases r1)
    case (Inl e)
    with "2.prems"(4) sd f1 show ?thesis by auto
  next
    case (Inr config)
    with a1 have c: "above_dict n0 config" by simp
    show ?thesis
    proof (cases "t_both_directives config")
      case True
      obtain s2 r2 where pc: "t_params_combine conv config (Some KEY_LIST) (Some Zip) s1 = (s2, r2)"
        by (cases "t_params_combine conv config (Some KEY_LIST) (Some Zip) s1")
      from tripleD [OF t_params_combine_frame [OF W c] f1 pc]
      have f2: "framed n0 W s2" and a2: "\<forall>x. r2 = Inr x \<longrightarrow> list_all (above_dict n0) x"
        by simp_all
      show ?thesis
      proof (cases r2)
        case (Inl e)
        with "2.prems"(4) sd Inr True pc f2 show ?thesis by auto
      next
        case new: (Inr new)
        with a2 have n: "list_all (above_dict n0) new" by simp
        let ?s = "store_list (la, seen @ config # rest @ new) s2"
        have fs: "framed n0 W ?s"
          by (rule store_list_framed [OF W _ f2]) (simp add: la)
        have p: "list_all (above_dict n0) (rest @ new)" using rs n by simp
        have run: "t_expand_worklist conv la (seen @ [config]) (rest @ new) ?s = (s', r)"
          using "2.prems"(4) sd Inr True pc new by simp
        show ?thesis
          by (rule "2.IH"(1) [OF sd [symmetric] Inr True pc [symmetric] new la fs p run])
      qed
    next
      case False
      obtain s2 r2 where es: "t_expand_single conv config s1 = (s2, r2)"
        by (cases "t_expand_single conv config s1")
      from tripleD [OF t_expand_single_frame [OF W c] f1 es]
      have f2: "framed n0 W s2" and a2: "\<forall>x. r2 = Inr x \<longrightarrow> list_all (above_dict n0) x"
        by simp_all
      show ?thesis
      proof (cases r2)
        case (Inl e)
        with "2.prems"(4) sd Inr False es f2 show ?thesis by auto
      next
        case ex: (Inr expansion)
        with a2 have e: "list_all (above_dict n0) expansion" by simp
        obtain s3 r3 where rec: "t_expand_worklist conv la (seen @ [config]) rest s2 = (s3, r3)"
          by (cases "t_expand_worklist conv la (seen @ [config]) rest s2")
        from "2.IH"(2) [OF sd [symmetric] Inr False es [symmetric] ex la f2 rs rec]
        have f3: "framed n0 W s3" and a3: "\<forall>x. r3 = Inr x \<longrightarrow> list_all (above_dict n0) x"
          by simp_all
        from "2.prems"(4) sd Inr False es ex rec
        have "(s', r) = (case r3 of Inl e \<Rightarrow> (s3, Inl e) | Inr acc \<Rightarrow> (s3, Inr (expansion @ acc)))"
          by simp
        with f3 a3 e show ?thesis by (cases r3) auto
      qed
    qed
  qed
qed

lemma t_expand_worklist_frame:
  assumes "\<forall>w \<in> set W. all_below n0 w" and "n0 \<le> la" and "list_all (above_dict n0) pending"
  shows "triple (framed n0 W) (t_expand_worklist conv la seen pending) (list_all (above_dict n0))"
  by (rule tripleI) (rule t_expand_worklist_run [OF assms(1) assms(2) _ assms(3)])

text \<open>
  What the frame property needs of the normalizer: given records that were made during
  the call, it leaves the caller's objects as they are.
\<close>

definition respects_frame :: "t_normalizer \<Rightarrow> bool" where
  "respects_frame nz =
     (\<forall>n0 W cs. (\<forall>w \<in> set W. all_below n0 w) \<and> list_all (above_dict n0) cs
        \<longrightarrow> triple (framed n0 W) (nz cs) (\<lambda>_. True))"

lemma t_keep_paths_respects_frame: "respects_frame t_keep_paths"
  by (simp add: respects_frame_def t_keep_paths_def triple_ret)

lemma t_expand_experiments_frame:
  assumes W: "\<forall>w \<in> set W. all_below n0 w" and nz: "respects_frame normalize_paths"
  shows "triple (framed n0 W) (t_expand_experiments conv normalize_paths exp_configs) (\<lambda>_. True)"
  unfolding t_expand_experiments_def
proof (rule triple_bind [OF deepcopy_templates_frame])
  fix l' :: tlist assume "n0 \<le> fst l' \<and> list_all (above_dict n0) (snd l')"
  then have la: "n0 \<le> fst l'" and p: "list_all (above_dict n0) (snd l')" by simp_all
  show "triple (framed n0 W)
      (and_then (t_expand_worklist conv (fst l') [] (snd l')) normalize_paths) (\<lambda>_. True)"
  proof (rule triple_bind [OF t_expand_worklist_frame [OF W la p]])
    fix ex assume "list_all (above_dict n0) ex"
    with W nz show "triple (framed n0 W) (normalize_paths ex) (\<lambda>_. True)"
      unfolding respects_frame_def by blast
  qed
qed

lemma t_unroll_rep_frame:
  assumes W: "\<forall>w \<in> set W. all_below n0 w"
  shows "triple (framed n0 W) (t_unroll_rep config r) (\<lambda>_. True)"
  unfolding t_unroll_rep_def
proof (rule triple_bind [OF deepcopy_dict_frame])
  fix c0 assume c0: "above_dict n0 c0"
  have i: "all_above n0 (TInt (int r))" by (simp add: all_above_def)
  show "triple (framed n0 W)
      (and_then (t_setitem KEY_i_REP_IDX (TInt (int r)) c0) (\<lambda>c1.
       and_then (t_getitem c1 KEY_LOG_PATH) (\<lambda>lp.
       and_then (as_str lp) (\<lambda>log_path.
       t_setitem KEY_i_REP_LOG_PATH (TStr (os_path_join log_path (''rep_'' @ format_02d r))) c1))))
      (\<lambda>_. True)"
  proof (rule triple_bind [OF t_setitem_frame [OF W c0 i]])
    fix c1 assume c1: "above_dict n0 c1"
    show "triple (framed n0 W)
        (and_then (t_getitem c1 KEY_LOG_PATH) (\<lambda>lp.
         and_then (as_str lp) (\<lambda>log_path.
         t_setitem KEY_i_REP_LOG_PATH (TStr (os_path_join log_path (''rep_'' @ format_02d r))) c1)))
        (\<lambda>_. True)"
    proof (rule triple_bind [OF t_getitem_any])
      fix lp :: tval
      show "triple (framed n0 W)
          (and_then (as_str lp) (\<lambda>log_path.
           t_setitem KEY_i_REP_LOG_PATH (TStr (os_path_join log_path (''rep_'' @ format_02d r))) c1))
          (\<lambda>_. True)"
      proof (rule triple_bind [OF as_str_any])
        fix log_path
        have "all_above n0 (TStr (os_path_join log_path (''rep_'' @ format_02d r)))"
          by (simp add: all_above_def)
        from t_setitem_frame [OF W c1 this]
        show "triple (framed n0 W)
            (t_setitem KEY_i_REP_LOG_PATH (TStr (os_path_join log_path (''rep_'' @ format_02d r))) c1)
            (\<lambda>_. True)"
          by (rule triple_weaken) simp
      qed
    qed
  qed
qed

lemma t_unroll_config_frame:
  assumes W: "\<forall>w \<in> set W. all_below n0 w"
  shows "triple (framed n0 W) (t_unroll_config config) (\<lambda>_. True)"
  unfolding t_unroll_config_def
proof (rule triple_if)
  show "triple (framed n0 W) (ret [config]) (\<lambda>_. True)" by (rule triple_ret) simp
next
  show "triple (framed n0 W)
      (and_then (t_getitem config KEY_REPS) (\<lambda>v.
       and_then (as_int v) (\<lambda>reps. mapM_prog (t_unroll_rep config) [0 ..< nat reps])))
      (\<lambda>_. True)"
  proof (rule triple_bind [OF t_getitem_any])
    fix v :: tval
    show "triple (framed n0 W)
        (and_then (as_int v) (\<lambda>reps. mapM_prog (t_unroll_rep config) [0 ..< nat reps])) (\<lambda>_. True)"
    proof (rule triple_bind [OF as_int_any])
      fix reps :: int
      have "triple (framed n0 W) (mapM_prog (t_unroll_rep config) [0 ..< nat reps])
          (list_all (\<lambda>_. True))"
        by (rule triple_mapM) (rule t_unroll_rep_frame [OF W])
      then show "triple (framed n0 W) (mapM_prog (t_unroll_rep config) [0 ..< nat reps]) (\<lambda>_. True)"
        by (rule triple_weaken) simp
    qed
  qed
qed

lemma t_unroll_exp_reps_frame:
  assumes W: "\<forall>w \<in> set W. all_below n0 w"
  shows "triple (framed n0 W) (t_unroll_exp_reps cs) (\<lambda>_. True)"
  unfolding t_unroll_exp_reps_def
proof (rule triple_bind [where P = "\<lambda>_. True"])
  have "triple (framed n0 W) (mapM_prog t_unroll_config cs) (list_all (\<lambda>_. True))"
    by (rule triple_mapM) (rule t_unroll_config_frame [OF W])
  then show "triple (framed n0 W) (mapM_prog t_unroll_config cs) (\<lambda>_. True)"
    by (rule triple_weaken) simp
next
  fix xss :: "tdict list list"
  show "triple (framed n0 W) (ret (concat xss)) (\<lambda>_. True)" by (rule triple_ret) simp
qed

lemma t_unfold_exps_frame:
  assumes W: "\<forall>w \<in> set W. all_below n0 w" and nz: "respects_frame normalize_paths"
  shows "triple (framed n0 W) (t_unfold_exps conv normalize_paths exp_configs) (\<lambda>_. True)"
  unfolding t_unfold_exps_def
  by (rule triple_bind [OF t_expand_experiments_frame [OF W nz]]) (rule t_unroll_exp_reps_frame [OF W])

lemma triple_world:
  assumes "triple (framed (nxt s) (world s)) m Q"
  shows "world (fst (m s)) = world s"
proof -
  obtain s' r where m: "m s = (s', r)" by (cases "m s")
  have "framed (nxt s) (world s) s" by (simp add: framed_def)
  from tripleD [OF assms this m] m show ?thesis by (simp add: framed_def)
qed

text \<open>
  C10. Run from any state in which the caller's objects (the input list and every template
  in it among them) were allocated before the call, \<open>unfold_exps\<close> and its two phases
  \<open>expand_experiments\<close> and \<open>unroll_exp_reps\<close> leave every one of these objects as it was,
  whether the call returns or raises: \<open>expand_experiments\<close> copies the whole input before
  it writes the first bookkeeping field, every later write goes to that copy, to a copy of
  a record of it or to an object made in the call, and \<open>unroll_exp_reps\<close> copies a record
  before it writes the repetition index and the log path. (The normalizer is taken to
  leave the caller's objects alone when it is given records made in the call.)
\<close>

theorem caller_input_unmodified:
  assumes "\<forall>v \<in> set (world s). all_below (nxt s) v" and "respects_frame normalize_paths"
  shows "world (fst (t_unfold_exps conv normalize_paths exp_configs s)) = world s
       \<and> world (fst (t_expand_experiments conv normalize_paths exp_configs s)) = world s
       \<and> world (fst (t_unroll_exp_reps cs s)) = world s"
proof (intro conjI)
  show "world (fst (t_unfold_exps conv normalize_paths exp_configs s)) = world s"
    by (rule triple_world) (rule t_unfold_exps_frame [OF assms])
  show "world (fst (t_expand_experiments conv normalize_paths exp_configs s)) = world s"
    by (rule triple_world) (rule t_expand_experiments_frame [OF assms])
  show "world (fst (t_unroll_exp_reps cs s)) = world s"
    by (rule triple_world) (rule t_unroll_exp_reps_frame [OF assms(1)])
qed

theorem caller_input_unmodified_witness:
  "list_all (all_below (nxt caller_state)) (world caller_state)
   \<and> world caller_state = [list_val caller_templates]
   \<and> world (fst (t_unfold_exps plain_tokens t_keep_paths caller_templates caller_state))
       = [list_val caller_templates]
   \<and> world (fst (t_expand_experiments plain_tokens t_keep_paths caller_templates caller_state))
       = [list_val caller_templates]
   \<and> world (fst (t_unroll_exp_reps (snd caller_templates) caller_state))
       = [list_val caller_templates]
   \<and> length (projr (snd (t_unfold_exps plain_tokens t_keep_paths caller_templates caller_state))) = 8"
proof -
  have a: "list_all (all_below (nxt caller_state)) (world caller_state)"
    by code_simp
  then have h: "\<forall>v \<in> set (world caller_state). all_below (nxt caller_state) v"
    by (simp add: list_all_iff)
  have w: "world caller_state = [list_val caller_templates]"
    by (simp add: caller_state_def)
  have n: "length (projr (snd (t_unfold_exps plain_tokens t_keep_paths caller_templates caller_state))) = 8"
    by code_simp
  note r = caller_input_unmodified [OF h t_keep_paths_respects_frame,
      of plain_tokens caller_templates "snd caller_templates"]
  from r a w n show ?thesis by simp
qed

text \<open>
  The store does tell a copy from its original: the defaults written to a template of the
  caller, with no copy in between, show in the caller's list. And on that input the run
  on objects returns the records the run on values returns.
\<close>

lemma write_without_copy_is_seen:
  "world (fst (t_set_defaults (hd (snd caller_templates)) caller_state)) \<noteq> world caller_state"
  by code_simp

lemma store_run_agrees_on_caller_templates:
  "map (erase_items \<circ> snd)
     (projr (snd (t_unfold_exps plain_tokens t_keep_paths caller_templates caller_state)))
   = projr (snd (unfold_exps plain_tokens keep_paths (map (erase_items \<circ> snd) (snd caller_templates))))"
  by code_simp

end
